theory Spec2Isabelle
  imports Main "HOL-Library.Word"
begin

unbundle bit_operations_syntax

section \<open>MCPX APU (hw/xbox/mcpx\_apu.c): data model\<close>

text \<open>
  The device state \<open>MCPXAPUState\<close> of the source, with its collaborators made explicit:
  \<^item> the three register arrays, indexed by the byte offset as the source indexes them;
  \<^item> guest physical memory reached through \<open>ldl_le_phys\<close>/\<open>stl_le_phys\<close> and through
    \<open>ram_ptr\<close>, as one byte store (guest RAM sits at physical address 0);
  \<^item> the level of the PCI interrupt line driven by \<open>pci_irq_assert\<close>/\<open>pci_irq_deassert\<close>;
  \<^item> the one-shot frame timer (its deadline in ms when armed) and the virtual clock;
  \<^item> the two signal processors, opaque: each is the list of calls made to it, in order.
\<close>

type_synonym hwaddr = "64 word"

datatype dsp_call =
    Dsp_reset
  | Dsp_bootstrap
  | Dsp_start_frame
  | Dsp_run int
  | Dsp_write_memory char "32 word" "32 word"

datatype error =
    Assert_voice_handle
  | Assert_antecedent_voice
  | Assert_idle_voice
  | Assert_unknown_method
  | Assert_page_entry
  | Assert_ram_size
  | Assert_window
  | Assert_wrap
  | Assert_fifo_index
  | Assert_fifo_cur
  | Assert_size
  | Assert_align
  | Division_by_zero

record MCPXAPUState =
  regs :: "hwaddr \<Rightarrow> 32 word"
  gp_regs :: "hwaddr \<Rightarrow> 32 word"
  ep_regs :: "hwaddr \<Rightarrow> 32 word"
  gp_dsp :: "dsp_call list"
  ep_dsp :: "dsp_call list"
  irq :: bool
  frame_timer :: "int option"
  clock_ms :: int
  mem :: "hwaddr \<Rightarrow> 8 word"
  ram_size :: "64 word"

subsection \<open>Register offsets and bit fields\<close>

definition NV_PAPU_ISTS :: hwaddr where "NV_PAPU_ISTS = 0x1000"
definition NV_PAPU_ISTS_GINTSTS :: "32 word" where "NV_PAPU_ISTS_GINTSTS = 1"
definition NV_PAPU_ISTS_FETINTSTS :: "32 word" where "NV_PAPU_ISTS_FETINTSTS = 0x10"
definition NV_PAPU_IEN :: hwaddr where "NV_PAPU_IEN = 0x1004"
definition NV_PAPU_FECTL :: hwaddr where "NV_PAPU_FECTL = 0x1100"
definition NV_PAPU_FECTL_FEMETHMODE :: "32 word" where "NV_PAPU_FECTL_FEMETHMODE = 0xE0"
definition NV_PAPU_FECTL_FEMETHMODE_TRAPPED :: "32 word" where
  "NV_PAPU_FECTL_FEMETHMODE_TRAPPED = 0xE0"
definition NV_PAPU_FECTL_FETRAPREASON :: "32 word" where "NV_PAPU_FECTL_FETRAPREASON = 0xF00"
definition NV_PAPU_FECTL_FETRAPREASON_REQUESTED :: "32 word" where
  "NV_PAPU_FECTL_FETRAPREASON_REQUESTED = 0xF00"
definition NV_PAPU_FECV :: hwaddr where "NV_PAPU_FECV = 0x1110"
definition NV_PAPU_FEAV :: hwaddr where "NV_PAPU_FEAV = 0x1118"
definition NV_PAPU_FEAV_VALUE :: "32 word" where "NV_PAPU_FEAV_VALUE = 0xFFFF"
definition NV_PAPU_FEAV_LST :: "32 word" where "NV_PAPU_FEAV_LST = 0x30000"
definition NV_PAPU_FEDECMETH :: hwaddr where "NV_PAPU_FEDECMETH = 0x1300"
definition NV_PAPU_FEDECPARAM :: hwaddr where "NV_PAPU_FEDECPARAM = 0x1304"
definition NV_PAPU_FEMEMADDR :: hwaddr where "NV_PAPU_FEMEMADDR = 0x1324"
definition NV_PAPU_FEMEMDATA :: hwaddr where "NV_PAPU_FEMEMDATA = 0x1334"
definition NV_PAPU_FETFORCE1 :: hwaddr where "NV_PAPU_FETFORCE1 = 0x1504"
definition NV_PAPU_FETFORCE1_SE2FE_IDLE_VOICE :: "32 word" where
  "NV_PAPU_FETFORCE1_SE2FE_IDLE_VOICE = 0x8000"
definition NV_PAPU_SECTL :: hwaddr where "NV_PAPU_SECTL = 0x2000"
definition NV_PAPU_SECTL_XCNTMODE :: "64 word" where "NV_PAPU_SECTL_XCNTMODE = 0x18"
definition NV_PAPU_SECTL_XCNTMODE_OFF :: "64 word" where "NV_PAPU_SECTL_XCNTMODE_OFF = 0"
definition NV_PAPU_VPVADDR :: hwaddr where "NV_PAPU_VPVADDR = 0x202C"
definition NV_PAPU_GPFADDR :: hwaddr where "NV_PAPU_GPFADDR = 0x2044"
definition NV_PAPU_TVL2D :: hwaddr where "NV_PAPU_TVL2D = 0x2054"
definition NV_PAPU_CVL2D :: hwaddr where "NV_PAPU_CVL2D = 0x2058"
definition NV_PAPU_NVL2D :: hwaddr where "NV_PAPU_NVL2D = 0x205C"
definition NV_PAPU_TVL3D :: hwaddr where "NV_PAPU_TVL3D = 0x2060"
definition NV_PAPU_CVL3D :: hwaddr where "NV_PAPU_CVL3D = 0x2064"
definition NV_PAPU_NVL3D :: hwaddr where "NV_PAPU_NVL3D = 0x2068"
definition NV_PAPU_TVLMP :: hwaddr where "NV_PAPU_TVLMP = 0x206C"
definition NV_PAPU_CVLMP :: hwaddr where "NV_PAPU_CVLMP = 0x2070"
definition NV_PAPU_NVLMP :: hwaddr where "NV_PAPU_NVLMP = 0x2074"
definition NV_PAPU_GPFMAXSGE :: hwaddr where "NV_PAPU_GPFMAXSGE = 0x20D8"

definition NV_PAPU_GPOFBASE0 :: hwaddr where "NV_PAPU_GPOFBASE0 = 0x3024"
definition NV_PAPU_GPOFBASE0_VALUE :: "32 word" where "NV_PAPU_GPOFBASE0_VALUE = 0x00FFFF00"
definition NV_PAPU_GPOFEND0 :: hwaddr where "NV_PAPU_GPOFEND0 = 0x3028"
definition NV_PAPU_GPOFEND0_VALUE :: "32 word" where "NV_PAPU_GPOFEND0_VALUE = 0x00FFFF00"
definition NV_PAPU_GPOFCUR0 :: hwaddr where "NV_PAPU_GPOFCUR0 = 0x302C"
definition NV_PAPU_GPOFCUR0_VALUE :: "32 word" where "NV_PAPU_GPOFCUR0_VALUE = 0x00FFFFFC"
definition NV_PAPU_GPIFBASE0 :: hwaddr where "NV_PAPU_GPIFBASE0 = 0x3064"
definition NV_PAPU_GPIFEND0 :: hwaddr where "NV_PAPU_GPIFEND0 = 0x3068"
definition NV_PAPU_GPIFCUR0 :: hwaddr where "NV_PAPU_GPIFCUR0 = 0x306C"

definition NV_PAPU_GPXMEM :: hwaddr where "NV_PAPU_GPXMEM = 0x0000"
definition NV_PAPU_GPMIXBUF :: hwaddr where "NV_PAPU_GPMIXBUF = 0x5000"
definition NV_PAPU_GPYMEM :: hwaddr where "NV_PAPU_GPYMEM = 0x6000"
definition NV_PAPU_GPPMEM :: hwaddr where "NV_PAPU_GPPMEM = 0xA000"
definition NV_PAPU_GPRST :: hwaddr where "NV_PAPU_GPRST = 0xFFFC"
definition NV_PAPU_GPRST_GPRST :: "32 word" where "NV_PAPU_GPRST_GPRST = 1"
definition NV_PAPU_GPRST_GPDSPRST :: "32 word" where "NV_PAPU_GPRST_GPDSPRST = 2"
definition NV_PAPU_EPRST :: hwaddr where "NV_PAPU_EPRST = 0xFFFC"

definition NV1BA0_PIO_SET_ANTECEDENT_VOICE :: "32 word" where
  "NV1BA0_PIO_SET_ANTECEDENT_VOICE = 0x120"
definition NV1BA0_PIO_SET_ANTECEDENT_VOICE_LIST_INHERIT :: "32 word" where
  "NV1BA0_PIO_SET_ANTECEDENT_VOICE_LIST_INHERIT = 0"
definition NV1BA0_PIO_VOICE_ON :: "32 word" where "NV1BA0_PIO_VOICE_ON = 0x124"
definition NV1BA0_PIO_VOICE_ON_HANDLE :: "32 word" where "NV1BA0_PIO_VOICE_ON_HANDLE = 0xFFFF"
definition NV1BA0_PIO_VOICE_OFF :: "32 word" where "NV1BA0_PIO_VOICE_OFF = 0x128"
definition NV1BA0_PIO_VOICE_OFF_HANDLE :: "32 word" where "NV1BA0_PIO_VOICE_OFF_HANDLE = 0xFFFF"
definition NV1BA0_PIO_VOICE_PAUSE :: "32 word" where "NV1BA0_PIO_VOICE_PAUSE = 0x140"
definition NV1BA0_PIO_VOICE_PAUSE_HANDLE :: "32 word" where
  "NV1BA0_PIO_VOICE_PAUSE_HANDLE = 0xFFFF"
definition NV1BA0_PIO_VOICE_PAUSE_ACTION :: "32 word" where
  "NV1BA0_PIO_VOICE_PAUSE_ACTION = 0x40000"
definition NV1BA0_PIO_SET_CURRENT_VOICE :: "32 word" where "NV1BA0_PIO_SET_CURRENT_VOICE = 0x2F8"
definition SE2FE_IDLE_VOICE :: "32 word" where "SE2FE_IDLE_VOICE = 0x8000"

definition NV_PAVS_SIZE :: "32 word" where "NV_PAVS_SIZE = 0x80"
definition NV_PAVS_VOICE_PAR_STATE :: hwaddr where "NV_PAVS_VOICE_PAR_STATE = 0x54"
definition NV_PAVS_VOICE_PAR_STATE_PAUSED :: "32 word" where
  "NV_PAVS_VOICE_PAR_STATE_PAUSED = 0x40000"
definition NV_PAVS_VOICE_PAR_STATE_ACTIVE_VOICE :: "32 word" where
  "NV_PAVS_VOICE_PAR_STATE_ACTIVE_VOICE = 0x200000"
definition NV_PAVS_VOICE_TAR_PITCH_LINK :: hwaddr where "NV_PAVS_VOICE_TAR_PITCH_LINK = 0x7C"
definition NV_PAVS_VOICE_TAR_PITCH_LINK_NEXT_VOICE_HANDLE :: "32 word" where
  "NV_PAVS_VOICE_TAR_PITCH_LINK_NEXT_VOICE_HANDLE = 0xFFFF"

definition GP_DSP_MIXBUF_BASE :: "32 word" where "GP_DSP_MIXBUF_BASE = 0x1400"
definition GP_OUTPUT_FIFO_COUNT :: "32 word" where "GP_OUTPUT_FIFO_COUNT = 4"
definition GP_INPUT_FIFO_COUNT :: "32 word" where "GP_INPUT_FIFO_COUNT = 2"

text \<open>The table \<open>voice_list_regs\<close>: the top, current and next register of list 0, 1, 2.\<close>

definition voice_list_top :: "32 word \<Rightarrow> hwaddr" where
  "voice_list_top i = (if i = 0 then NV_PAPU_TVL2D else if i = 1 then NV_PAPU_TVL3D
                       else NV_PAPU_TVLMP)"

definition voice_list_current :: "32 word \<Rightarrow> hwaddr" where
  "voice_list_current i = (if i = 0 then NV_PAPU_CVL2D else if i = 1 then NV_PAPU_CVL3D
                           else NV_PAPU_CVLMP)"

definition voice_list_next :: "32 word \<Rightarrow> hwaddr" where
  "voice_list_next i = (if i = 0 then NV_PAPU_NVL2D else if i = 1 then NV_PAPU_NVL3D
                        else NV_PAPU_NVLMP)"

subsection \<open>Bit-field macros and guest memory\<close>

text \<open>\<open>ctz32\<close> counts the trailing zero bits, 32 for 0.\<close>

definition ctz32 :: "32 word \<Rightarrow> nat" where
  "ctz32 v = length (takeWhile (\<lambda>n. \<not> bit v n) [0..<32])"

definition GET_MASK :: "32 word \<Rightarrow> 32 word \<Rightarrow> 32 word" where
  "GET_MASK v msk = drop_bit (ctz32 msk) (v AND msk)"

definition SET_MASK :: "32 word \<Rightarrow> 32 word \<Rightarrow> 32 word \<Rightarrow> 32 word" where
  "SET_MASK v msk val = (v AND NOT msk) OR (push_bit (ctz32 msk) val AND msk)"

definition ldl_le_phys :: "(hwaddr \<Rightarrow> 8 word) \<Rightarrow> hwaddr \<Rightarrow> 32 word" where
  "ldl_le_phys m a =
     ucast (m a) OR push_bit 8 (ucast (m (a + 1))) OR push_bit 16 (ucast (m (a + 2)))
       OR push_bit 24 (ucast (m (a + 3)))"

definition stl_le_phys :: "(hwaddr \<Rightarrow> 8 word) \<Rightarrow> hwaddr \<Rightarrow> 32 word \<Rightarrow> (hwaddr \<Rightarrow> 8 word)" where
  "stl_le_phys m a v =
     m(a := ucast v, a + 1 := ucast (drop_bit 8 v), a + 2 := ucast (drop_bit 16 v),
       a + 3 := ucast (drop_bit 24 v))"

section \<open>Voice records\<close>

definition voice_get_mask ::
  "MCPXAPUState \<Rightarrow> 32 word \<Rightarrow> hwaddr \<Rightarrow> 32 word \<Rightarrow> error + 32 word" where
  "voice_get_mask d voice_handle offset msk =
     (if \<not> voice_handle < 0xFFFF then Inl Assert_voice_handle
      else let voice = (ucast (regs d NV_PAPU_VPVADDR + voice_handle * NV_PAVS_SIZE) :: hwaddr)
           in Inr (drop_bit (ctz32 msk) (ldl_le_phys (mem d) (voice + offset) AND msk)))"

definition voice_set_mask ::
  "MCPXAPUState \<Rightarrow> 32 word \<Rightarrow> hwaddr \<Rightarrow> 32 word \<Rightarrow> 32 word \<Rightarrow> error + MCPXAPUState" where
  "voice_set_mask d voice_handle offset msk val =
     (if \<not> voice_handle < 0xFFFF then Inl Assert_voice_handle
      else let voice = (ucast (regs d NV_PAPU_VPVADDR + voice_handle * NV_PAVS_SIZE) :: hwaddr);
               v = ldl_le_phys (mem d) (voice + offset) AND NOT msk
           in Inr (d\<lparr>mem := stl_le_phys (mem d) (voice + offset)
                                (v OR (push_bit (ctz32 msk) val AND msk))\<rparr>))"

section \<open>Interrupt arbiter and the top-level register file\<close>

definition update_irq :: "MCPXAPUState \<Rightarrow> MCPXAPUState" where
  "update_irq d =
     (if regs d NV_PAPU_IEN AND NV_PAPU_ISTS_GINTSTS \<noteq> 0
         \<and> (regs d NV_PAPU_ISTS AND NOT NV_PAPU_ISTS_GINTSTS) AND regs d NV_PAPU_IEN \<noteq> 0
      then d\<lparr>regs := (regs d)(NV_PAPU_ISTS := regs d NV_PAPU_ISTS OR NV_PAPU_ISTS_GINTSTS),
             irq := True\<rparr>
      else d\<lparr>regs := (regs d)(NV_PAPU_ISTS := regs d NV_PAPU_ISTS AND NOT NV_PAPU_ISTS_GINTSTS),
             irq := False\<rparr>)"

definition mcpx_apu_write :: "MCPXAPUState \<Rightarrow> hwaddr \<Rightarrow> 64 word \<Rightarrow> nat \<Rightarrow> MCPXAPUState" where
  "mcpx_apu_write d addr val sz =
     (if addr = NV_PAPU_ISTS then
        update_irq (d\<lparr>regs := (regs d)(NV_PAPU_ISTS := ucast (ucast (regs d NV_PAPU_ISTS) AND NOT val))\<rparr>)
      else if addr = NV_PAPU_SECTL then
        (let d' = (if drop_bit 3 (val AND NV_PAPU_SECTL_XCNTMODE) = NV_PAPU_SECTL_XCNTMODE_OFF
                   then d\<lparr>frame_timer := None\<rparr>
                   else d\<lparr>frame_timer := Some (clock_ms d + 10)\<rparr>)
         in d'\<lparr>regs := (regs d')(addr := ucast val)\<rparr>)
      else if addr = NV_PAPU_FEMEMDATA then
        (let d' = d\<lparr>mem := stl_le_phys (mem d) (ucast (regs d NV_PAPU_FEMEMADDR)) (ucast val)\<rparr>
         in d'\<lparr>regs := (regs d')(addr := ucast val)\<rparr>)
      else if addr < 0x20000 then d\<lparr>regs := (regs d)(addr := ucast val)\<rparr>
      else d)"

section \<open>Front-end method engine\<close>

definition fe_method :: "MCPXAPUState \<Rightarrow> 32 word \<Rightarrow> 32 word \<Rightarrow> error + MCPXAPUState" where
  "fe_method d0 method argument =
     (let d = d0\<lparr>regs := (regs d0)(NV_PAPU_FEDECMETH := method, NV_PAPU_FEDECPARAM := argument)\<rparr>
      in
      if method = NV1BA0_PIO_SET_ANTECEDENT_VOICE then
        Inr (d\<lparr>regs := (regs d)(NV_PAPU_FEAV := argument)\<rparr>)
      else if method = NV1BA0_PIO_VOICE_ON then
        (let selected_handle = argument AND NV1BA0_PIO_VOICE_ON_HANDLE;
             lst = GET_MASK (regs d NV_PAPU_FEAV) NV_PAPU_FEAV_LST;
             r = (if lst \<noteq> NV1BA0_PIO_SET_ANTECEDENT_VOICE_LIST_INHERIT then
                    (let top_reg = voice_list_top (lst - 1)
                     in case voice_set_mask d selected_handle NV_PAVS_VOICE_TAR_PITCH_LINK
                               NV_PAVS_VOICE_TAR_PITCH_LINK_NEXT_VOICE_HANDLE (regs d top_reg) of
                          Inl e \<Rightarrow> Inl e
                        | Inr d1 \<Rightarrow> Inr (d1\<lparr>regs := (regs d1)(top_reg := selected_handle)\<rparr>))
                  else
                    (let antecedent_voice = GET_MASK (regs d NV_PAPU_FEAV) NV_PAPU_FEAV_VALUE
                     in if \<not> antecedent_voice \<noteq> 0xFFFF then Inl Assert_antecedent_voice
                        else case voice_get_mask d antecedent_voice NV_PAVS_VOICE_TAR_PITCH_LINK
                                    NV_PAVS_VOICE_TAR_PITCH_LINK_NEXT_VOICE_HANDLE of
                          Inl e \<Rightarrow> Inl e
                        | Inr next_handle \<Rightarrow>
                            (case voice_set_mask d selected_handle NV_PAVS_VOICE_TAR_PITCH_LINK
                                    NV_PAVS_VOICE_TAR_PITCH_LINK_NEXT_VOICE_HANDLE next_handle of
                               Inl e \<Rightarrow> Inl e
                             | Inr d1 \<Rightarrow>
                                 voice_set_mask d1 antecedent_voice NV_PAVS_VOICE_TAR_PITCH_LINK
                                    NV_PAVS_VOICE_TAR_PITCH_LINK_NEXT_VOICE_HANDLE selected_handle)))
         in case r of
              Inl e \<Rightarrow> Inl e
            | Inr d2 \<Rightarrow> voice_set_mask d2 selected_handle NV_PAVS_VOICE_PAR_STATE
                           NV_PAVS_VOICE_PAR_STATE_ACTIVE_VOICE 1)
      else if method = NV1BA0_PIO_VOICE_OFF then
        voice_set_mask d (argument AND NV1BA0_PIO_VOICE_OFF_HANDLE) NV_PAVS_VOICE_PAR_STATE
          NV_PAVS_VOICE_PAR_STATE_ACTIVE_VOICE 0
      else if method = NV1BA0_PIO_VOICE_PAUSE then
        voice_set_mask d (argument AND NV1BA0_PIO_VOICE_PAUSE_HANDLE) NV_PAVS_VOICE_PAR_STATE
          NV_PAVS_VOICE_PAR_STATE_PAUSED
          (if argument AND NV1BA0_PIO_VOICE_PAUSE_ACTION \<noteq> 0 then 1 else 0)
      else if method = NV1BA0_PIO_SET_CURRENT_VOICE then
        Inr (d\<lparr>regs := (regs d)(NV_PAPU_FECV := argument)\<rparr>)
      else if method = SE2FE_IDLE_VOICE then
        (if regs d NV_PAPU_FETFORCE1 AND NV_PAPU_FETFORCE1_SE2FE_IDLE_VOICE \<noteq> 0 then
           (let c1 = regs d NV_PAPU_FECTL AND NOT NV_PAPU_FECTL_FEMETHMODE;
                c2 = c1 OR NV_PAPU_FECTL_FEMETHMODE_TRAPPED;
                c3 = c2 AND NOT NV_PAPU_FECTL_FETRAPREASON;
                c4 = c3 OR NV_PAPU_FECTL_FETRAPREASON_REQUESTED
            in Inr (update_irq (d\<lparr>regs := (regs d)(NV_PAPU_FECTL := c4,
                 NV_PAPU_ISTS := regs d NV_PAPU_ISTS OR NV_PAPU_ISTS_FETINTSTS)\<rparr>)))
         else Inl Assert_idle_voice)
      else Inl Assert_unknown_method)"

text \<open>
  \<open>vp_write\<close>: a guest write to the VP command window. The method and the argument of
  \<open>fe_method\<close> are 32-bit, so the offset and the value are truncated.
\<close>

definition vp_write :: "MCPXAPUState \<Rightarrow> hwaddr \<Rightarrow> 64 word \<Rightarrow> nat \<Rightarrow> error + MCPXAPUState" where
  "vp_write d addr val sz =
     (if addr = ucast NV1BA0_PIO_SET_ANTECEDENT_VOICE
         \<or> addr = ucast NV1BA0_PIO_VOICE_ON
         \<or> addr = ucast NV1BA0_PIO_VOICE_OFF
         \<or> addr = ucast NV1BA0_PIO_VOICE_PAUSE
         \<or> addr = ucast NV1BA0_PIO_SET_CURRENT_VOICE
      then fe_method d (ucast addr) (ucast val)
      else Inr d)"

section \<open>Scatter/gather DMA\<close>

text \<open>
  The caller's buffer is the host memory behind \<open>ptr\<close>: an array of bytes \<open>buf\<close> and the
  index \<open>ptr\<close> into it. \<open>dir = True\<close> copies from the buffer to guest RAM, \<open>dir = False\<close>
  from guest RAM to the buffer. \<open>TARGET_PAGE_SIZE\<close> is a constant of the build that the
  file does not define: it is the parameter \<open>page_size\<close>. The dirty-range notification has
  no effect on the state modelled here.
\<close>

definition memcpy_to_ram ::
  "(hwaddr \<Rightarrow> 8 word) \<Rightarrow> hwaddr \<Rightarrow> (nat \<Rightarrow> 8 word) \<Rightarrow> nat \<Rightarrow> nat \<Rightarrow> (hwaddr \<Rightarrow> 8 word)" where
  "memcpy_to_ram m paddr buf ptr n =
     (\<lambda>a. if unat (a - paddr) < n then buf (ptr + unat (a - paddr)) else m a)"

definition memcpy_from_ram ::
  "(nat \<Rightarrow> 8 word) \<Rightarrow> nat \<Rightarrow> (hwaddr \<Rightarrow> 8 word) \<Rightarrow> hwaddr \<Rightarrow> nat \<Rightarrow> (nat \<Rightarrow> 8 word)" where
  "memcpy_from_ram buf ptr m paddr n =
     (\<lambda>k. if ptr \<le> k \<and> k < ptr + n then m (paddr + of_nat (k - ptr)) else buf k)"

text \<open>The loop of \<open>scatter_gather_rw\<close>, on the loop variables of the source.\<close>

partial_function (option) scatter_gather_loop ::
  "32 word \<Rightarrow> hwaddr \<Rightarrow> 32 word \<Rightarrow> bool \<Rightarrow> MCPXAPUState \<Rightarrow> (nat \<Rightarrow> 8 word) \<Rightarrow> nat \<Rightarrow> 64 word
     \<Rightarrow> 32 word \<Rightarrow> 32 word \<Rightarrow> 32 word \<Rightarrow> (error + MCPXAPUState \<times> (nat \<Rightarrow> 8 word)) option" where
  "scatter_gather_loop page_size sge_base max_sge dir d buf ptr len
       page_entry offset_in_page bytes_to_copy =
     (if len > 0 then
        if \<not> page_entry \<le> max_sge then Some (Inl Assert_page_entry)
        else
          let prd_address = ldl_le_phys (mem d) (sge_base + ucast (page_entry * 8) + 0);
              paddr = (ucast (prd_address + offset_in_page) :: hwaddr);
              btc = (if ucast bytes_to_copy > len then ucast len else bytes_to_copy)
          in if \<not> paddr + ucast btc < ram_size d then Some (Inl Assert_ram_size)
             else
               scatter_gather_loop page_size sge_base max_sge dir
                 (if dir then d\<lparr>mem := memcpy_to_ram (mem d) paddr buf ptr (unat btc)\<rparr> else d)
                 (if dir then buf else memcpy_from_ram buf ptr (mem d) paddr (unat btc))
                 (ptr + unat btc) (len - ucast btc)
                 (page_entry + 1) 0 page_size
      else Some (Inr (d, buf)))"

definition scatter_gather_rw ::
  "32 word \<Rightarrow> MCPXAPUState \<Rightarrow> hwaddr \<Rightarrow> 32 word \<Rightarrow> (nat \<Rightarrow> 8 word) \<Rightarrow> nat \<Rightarrow> 32 word \<Rightarrow> 64 word
     \<Rightarrow> bool \<Rightarrow> (error + MCPXAPUState \<times> (nat \<Rightarrow> 8 word)) option" where
  "scatter_gather_rw page_size d sge_base max_sge buf ptr addr len dir =
     (if page_size = 0 then Some (Inl Division_by_zero)
      else
        let page_entry = addr div page_size;
            offset_in_page = addr mod page_size;
            bytes_to_copy = page_size - offset_in_page
        in scatter_gather_loop page_size sge_base max_sge dir d buf ptr len
             page_entry offset_in_page bytes_to_copy)"

partial_function (option) circular_scatter_gather_rw ::
  "32 word \<Rightarrow> hwaddr \<Rightarrow> 32 word \<Rightarrow> bool \<Rightarrow> 32 word \<Rightarrow> 32 word \<Rightarrow> MCPXAPUState
     \<Rightarrow> (nat \<Rightarrow> 8 word) \<Rightarrow> nat \<Rightarrow> 32 word \<Rightarrow> 64 word
     \<Rightarrow> (error + MCPXAPUState \<times> (nat \<Rightarrow> 8 word) \<times> 32 word) option" where
  "circular_scatter_gather_rw page_size sge_base max_sge dir base fend d buf ptr cur len =
     (if len > 0 then
        let bytes_to_copy = (if ucast (fend - cur) > len then ucast len else fend - cur)
        in if \<not> (cur \<ge> base \<and> cur + bytes_to_copy \<le> fend) then Some (Inl Assert_window)
           else
             case scatter_gather_rw page_size d sge_base max_sge buf ptr cur
                    (ucast bytes_to_copy) dir of
               None \<Rightarrow> None
             | Some (Inl e) \<Rightarrow> Some (Inl e)
             | Some (Inr (d', buf')) \<Rightarrow>
                 if cur + bytes_to_copy \<ge> fend then
                   if \<not> cur + bytes_to_copy = fend then Some (Inl Assert_wrap)
                   else circular_scatter_gather_rw page_size sge_base max_sge dir base fend
                          d' buf' (ptr + unat bytes_to_copy) base (len - ucast bytes_to_copy)
                 else circular_scatter_gather_rw page_size sge_base max_sge dir base fend
                        d' buf' (ptr + unat bytes_to_copy) (cur + bytes_to_copy)
                        (len - ucast bytes_to_copy)
      else Some (Inr (d, buf, cur)))"

definition gp_fifo_rw ::
  "32 word \<Rightarrow> MCPXAPUState \<Rightarrow> (nat \<Rightarrow> 8 word) \<Rightarrow> nat \<Rightarrow> 32 word \<Rightarrow> 64 word \<Rightarrow> bool
     \<Rightarrow> (error + MCPXAPUState \<times> (nat \<Rightarrow> 8 word)) option" where
  "gp_fifo_rw page_size d buf ptr index len dir =
     (if \<not> index < (if dir then GP_OUTPUT_FIFO_COUNT else GP_INPUT_FIFO_COUNT)
      then Some (Inl Assert_fifo_index)
      else
        let base = GET_MASK (regs d ((if dir then NV_PAPU_GPOFBASE0 else NV_PAPU_GPIFBASE0)
                                       + 0x10 * ucast index)) NV_PAPU_GPOFBASE0_VALUE;
            fend = GET_MASK (regs d ((if dir then NV_PAPU_GPOFEND0 else NV_PAPU_GPIFEND0)
                                       + 0x10 * ucast index)) NV_PAPU_GPOFEND0_VALUE;
            cur_reg = (if dir then NV_PAPU_GPOFCUR0 else NV_PAPU_GPIFCUR0) + 0x10 * ucast index;
            cur = GET_MASK (regs d cur_reg) NV_PAPU_GPOFCUR0_VALUE
        in if \<not> cur < fend then Some (Inl Assert_fifo_cur)
           else
             case circular_scatter_gather_rw page_size (ucast (regs d NV_PAPU_GPFADDR))
                    (regs d NV_PAPU_GPFMAXSGE) dir base fend d buf ptr
                    (if cur < base then base else cur) len of
               None \<Rightarrow> None
             | Some (Inl e) \<Rightarrow> Some (Inl e)
             | Some (Inr (d', buf', cur')) \<Rightarrow>
                 Some (Inr (d'\<lparr>regs := (regs d')(cur_reg :=
                              SET_MASK (regs d' cur_reg) NV_PAPU_GPOFCUR0_VALUE cur')\<rparr>, buf')))"

section \<open>Processor reset handshake\<close>

definition proc_rst_write :: "dsp_call list \<Rightarrow> 32 word \<Rightarrow> 32 word \<Rightarrow> dsp_call list" where
  "proc_rst_write dsp oldval val =
     (if val AND NV_PAPU_GPRST_GPRST = 0 \<or> val AND NV_PAPU_GPRST_GPDSPRST = 0 then
        dsp @ [Dsp_reset]
      else if (oldval AND NV_PAPU_GPRST_GPRST = 0 \<or> oldval AND NV_PAPU_GPRST_GPDSPRST = 0)
              \<and> (val AND NV_PAPU_GPRST_GPRST \<noteq> 0 \<and> val AND NV_PAPU_GPRST_GPDSPRST \<noteq> 0) then
        dsp @ [Dsp_bootstrap]
      else dsp)"

definition gp_write :: "MCPXAPUState \<Rightarrow> hwaddr \<Rightarrow> 64 word \<Rightarrow> nat \<Rightarrow> error + MCPXAPUState" where
  "gp_write d addr val sz =
     (if \<not> sz = 4 then Inl Assert_size
      else if \<not> addr mod 4 = 0 then Inl Assert_align
      else if NV_PAPU_GPXMEM \<le> addr \<and> addr \<le> NV_PAPU_GPXMEM + 0x1000 * 4 - 1 then
        Inr (d\<lparr>gp_dsp := gp_dsp d @
               [Dsp_write_memory CHR ''X'' (ucast ((addr - NV_PAPU_GPXMEM) div 4)) (ucast val)]\<rparr>)
      else if NV_PAPU_GPMIXBUF \<le> addr \<and> addr \<le> NV_PAPU_GPMIXBUF + 0x400 * 4 - 1 then
        Inr (d\<lparr>gp_dsp := gp_dsp d @
               [Dsp_write_memory CHR ''X''
                  (GP_DSP_MIXBUF_BASE + ucast ((addr - NV_PAPU_GPMIXBUF) div 4)) (ucast val)]\<rparr>)
      else if NV_PAPU_GPYMEM \<le> addr \<and> addr \<le> NV_PAPU_GPYMEM + 0x800 * 4 - 1 then
        Inr (d\<lparr>gp_dsp := gp_dsp d @
               [Dsp_write_memory CHR ''Y'' (ucast ((addr - NV_PAPU_GPYMEM) div 4)) (ucast val)]\<rparr>)
      else if NV_PAPU_GPPMEM \<le> addr \<and> addr \<le> NV_PAPU_GPPMEM + 0x1000 * 4 - 1 then
        Inr (d\<lparr>gp_dsp := gp_dsp d @
               [Dsp_write_memory CHR ''P'' (ucast ((addr - NV_PAPU_GPPMEM) div 4)) (ucast val)]\<rparr>)
      else if addr = NV_PAPU_GPRST then
        (let d' = d\<lparr>gp_dsp := proc_rst_write (gp_dsp d) (gp_regs d NV_PAPU_GPRST) (ucast val)\<rparr>
         in Inr (d'\<lparr>gp_regs := (gp_regs d')(NV_PAPU_GPRST := ucast val)\<rparr>))
      else Inr (d\<lparr>gp_regs := (gp_regs d)(addr := ucast val)\<rparr>))"

definition ep_write :: "MCPXAPUState \<Rightarrow> hwaddr \<Rightarrow> 64 word \<Rightarrow> nat \<Rightarrow> error + MCPXAPUState" where
  "ep_write d addr val sz =
     (if \<not> sz = 4 then Inl Assert_size
      else if \<not> addr mod 4 = 0 then Inl Assert_align
      else if NV_PAPU_GPXMEM \<le> addr \<and> addr \<le> NV_PAPU_GPXMEM + 0xC00 * 4 - 1 then
        Inr (d\<lparr>ep_dsp := ep_dsp d @
               [Dsp_write_memory CHR ''X'' (ucast ((addr - NV_PAPU_GPXMEM) div 4)) (ucast val)]\<rparr>)
      else if NV_PAPU_GPYMEM \<le> addr \<and> addr \<le> NV_PAPU_GPYMEM + 0x100 * 4 - 1 then
        Inr (d\<lparr>ep_dsp := ep_dsp d @
               [Dsp_write_memory CHR ''Y'' (ucast ((addr - NV_PAPU_GPYMEM) div 4)) (ucast val)]\<rparr>)
      else if NV_PAPU_GPPMEM \<le> addr \<and> addr \<le> NV_PAPU_GPPMEM + 0x1000 * 4 - 1 then
        Inr (d\<lparr>ep_dsp := ep_dsp d @
               [Dsp_write_memory CHR ''P'' (ucast ((addr - NV_PAPU_GPPMEM) div 4)) (ucast val)]\<rparr>)
      else if addr = NV_PAPU_EPRST then
        (let d' = d\<lparr>ep_dsp := proc_rst_write (ep_dsp d) (ep_regs d NV_PAPU_EPRST) (ucast val)\<rparr>
         in Inr (d'\<lparr>ep_regs := (ep_regs d')(NV_PAPU_EPRST := ucast val)\<rparr>))
      else Inr (d\<lparr>ep_regs := (ep_regs d)(addr := ucast val)\<rparr>))"

section \<open>Frame scheduler\<close>

text \<open>\<open>process_voice\<close> has an empty body: the mixbins stay zero.\<close>

definition process_voice :: "MCPXAPUState \<Rightarrow> 32 word \<Rightarrow> MCPXAPUState" where
  "process_voice d voice = d"

definition mixbins :: "nat \<Rightarrow> nat \<Rightarrow> 32 word" where
  "mixbins mixbin sample = 0"

text \<open>The \<open>while\<close> loop over one voice list; it does not end on a cyclic list.\<close>

partial_function (option) se_frame_voices ::
  "32 word \<Rightarrow> MCPXAPUState \<Rightarrow> (error + MCPXAPUState) option" where
  "se_frame_voices lst d =
     (if regs d (voice_list_current lst) \<noteq> 0xFFFF then
        case voice_get_mask d (regs d (voice_list_current lst)) NV_PAVS_VOICE_TAR_PITCH_LINK
               NV_PAVS_VOICE_TAR_PITCH_LINK_NEXT_VOICE_HANDLE of
          Inl e \<Rightarrow> Some (Inl e)
        | Inr n \<Rightarrow>
            (let d1 = d\<lparr>regs := (regs d)(voice_list_next lst := n)\<rparr>
             in (case voice_get_mask d1 (regs d1 (voice_list_current lst)) NV_PAVS_VOICE_PAR_STATE
                      NV_PAVS_VOICE_PAR_STATE_ACTIVE_VOICE of
                   Inl e \<Rightarrow> Some (Inl e)
                 | Inr active \<Rightarrow>
                     (case (if active = 0
                            then fe_method d1 SE2FE_IDLE_VOICE (regs d1 (voice_list_current lst))
                            else Inr (process_voice d1 (regs d1 (voice_list_current lst)))) of
                        Inl e \<Rightarrow> Some (Inl e)
                      | Inr d2 \<Rightarrow>
                          se_frame_voices lst
                            (d2\<lparr>regs := (regs d2)(voice_list_current lst :=
                                           regs d2 (voice_list_next lst))\<rparr>))))
      else Some (Inr d))"

definition se_frame_list :: "32 word \<Rightarrow> MCPXAPUState \<Rightarrow> (error + MCPXAPUState) option" where
  "se_frame_list lst d =
     se_frame_voices lst
       (d\<lparr>regs := (regs d)(voice_list_current lst := regs d (voice_list_top lst))\<rparr>)"

definition se_frame_mixbuf :: "dsp_call list" where
  "se_frame_mixbuf =
     concat (map (\<lambda>mixbin. map (\<lambda>sample.
        Dsp_write_memory CHR ''X'' (GP_DSP_MIXBUF_BASE + of_nat mixbin * 0x20 + of_nat sample)
          (mixbins mixbin sample AND 0xFFFFFF)) [0..<32]) [0..<32])"

definition se_frame_kickoff :: "MCPXAPUState \<Rightarrow> MCPXAPUState" where
  "se_frame_kickoff d =
     (let d1 = (if gp_regs d NV_PAPU_GPRST AND NV_PAPU_GPRST_GPRST \<noteq> 0
                   \<and> gp_regs d NV_PAPU_GPRST AND NV_PAPU_GPRST_GPDSPRST \<noteq> 0
                then d\<lparr>gp_dsp := gp_dsp d @ [Dsp_start_frame, Dsp_run 1000]\<rparr> else d)
      in if ep_regs d1 NV_PAPU_EPRST AND NV_PAPU_GPRST_GPRST \<noteq> 0
            \<and> ep_regs d1 NV_PAPU_EPRST AND NV_PAPU_GPRST_GPDSPRST \<noteq> 0
         then d1\<lparr>ep_dsp := ep_dsp d1 @ [Dsp_start_frame]\<rparr> else d1)"

definition se_frame :: "MCPXAPUState \<Rightarrow> (error + MCPXAPUState) option" where
  "se_frame d =
     (case se_frame_list 0 (d\<lparr>frame_timer := Some (clock_ms d + 10)\<rparr>) of
        None \<Rightarrow> None
      | Some (Inl e) \<Rightarrow> Some (Inl e)
      | Some (Inr d1) \<Rightarrow>
          (case se_frame_list 1 d1 of
             None \<Rightarrow> None
           | Some (Inl e) \<Rightarrow> Some (Inl e)
           | Some (Inr d2) \<Rightarrow>
               (case se_frame_list 2 d2 of
                  None \<Rightarrow> None
                | Some (Inl e) \<Rightarrow> Some (Inl e)
                | Some (Inr d3) \<Rightarrow>
                    Some (Inr (se_frame_kickoff (d3\<lparr>gp_dsp := gp_dsp d3 @ se_frame_mixbuf\<rparr>))))))"

section \<open>Properties stated for the claims\<close>

text \<open>
  The arbiter rule of the interrupt state: the summary bit \<open>GINTSTS\<close> of \<open>ISTS\<close> and the
  interrupt line are both up when \<open>IEN.GINTSTS\<close> is set and an enabled status bit is
  pending, and both down otherwise.
\<close>

definition arbiter_rule :: "MCPXAPUState \<Rightarrow> bool" where
  "arbiter_rule d =
     (if regs d NV_PAPU_IEN AND NV_PAPU_ISTS_GINTSTS \<noteq> 0
         \<and> (regs d NV_PAPU_ISTS AND NOT NV_PAPU_ISTS_GINTSTS) AND regs d NV_PAPU_IEN \<noteq> 0
      then regs d NV_PAPU_ISTS AND NV_PAPU_ISTS_GINTSTS \<noteq> 0 \<and> irq d
      else regs d NV_PAPU_ISTS AND NV_PAPU_ISTS_GINTSTS = 0 \<and> \<not> irq d)"

text \<open>Concrete device states for the worked examples: all registers and memory zero.\<close>

definition apu_reset_state :: MCPXAPUState where
  "apu_reset_state =
     \<lparr>regs = (\<lambda>a. 0), gp_regs = (\<lambda>a. 0), ep_regs = (\<lambda>a. 0), gp_dsp = [], ep_dsp = [],
      irq = False, frame_timer = None, clock_ms = 0, mem = (\<lambda>a. 0), ram_size = 0x4000000\<rparr>"

definition ists_pending_state :: MCPXAPUState where
  "ists_pending_state = apu_reset_state\<lparr>regs := (regs apu_reset_state)(NV_PAPU_ISTS := 0x10)\<rparr>"

definition idle_trap_state :: MCPXAPUState where
  "idle_trap_state =
     apu_reset_state\<lparr>regs := (regs apu_reset_state)(NV_PAPU_FETFORCE1 := 0x8000)\<rparr>"

text \<open>
  The reads of a voice record that the frame scheduler does, named: the next-voice handle
  of the record and its Active bit. The list selector and the antecedent handle held in
  \<open>FEAV\<close>, and the \<open>TOP\<close> register that the selector names.
\<close>

definition next_link :: "MCPXAPUState \<Rightarrow> 32 word \<Rightarrow> error + 32 word" where
  "next_link d h = voice_get_mask d h NV_PAVS_VOICE_TAR_PITCH_LINK
                     NV_PAVS_VOICE_TAR_PITCH_LINK_NEXT_VOICE_HANDLE"

definition voice_active :: "MCPXAPUState \<Rightarrow> 32 word \<Rightarrow> error + 32 word" where
  "voice_active d h = voice_get_mask d h NV_PAVS_VOICE_PAR_STATE
                        NV_PAVS_VOICE_PAR_STATE_ACTIVE_VOICE"

definition feav_list :: "MCPXAPUState \<Rightarrow> 32 word" where
  "feav_list d = GET_MASK (regs d NV_PAPU_FEAV) NV_PAPU_FEAV_LST"

definition feav_antecedent :: "MCPXAPUState \<Rightarrow> 32 word" where
  "feav_antecedent d = GET_MASK (regs d NV_PAPU_FEAV) NV_PAPU_FEAV_VALUE"

definition top_reg :: "MCPXAPUState \<Rightarrow> hwaddr" where
  "top_reg d = voice_list_top (feav_list d - 1)"

text \<open>
  States of the worked examples: an empty 3D list selected for a top insert, a 2D list whose
  \<open>TOP\<close> register holds a value wider than 16 bits, and an insert after voice 5.
\<close>

definition empty_3d_state :: MCPXAPUState where
  "empty_3d_state = apu_reset_state\<lparr>regs := (regs apu_reset_state)
     (NV_PAPU_VPVADDR := 0x100000, NV_PAPU_FEAV := 0x20000, NV_PAPU_TVL3D := 0xFFFF)\<rparr>"

definition wide_top_state :: MCPXAPUState where
  "wide_top_state = apu_reset_state\<lparr>regs := (regs apu_reset_state)
     (NV_PAPU_FEAV := 0x10000, NV_PAPU_TVL2D := 0x10000)\<rparr>"

definition inherit_state :: MCPXAPUState where
  "inherit_state = apu_reset_state\<lparr>regs := (regs apu_reset_state)(NV_PAPU_FEAV := 5)\<rparr>"

text \<open>
  What a write to the VP window can do at most: fail on a voice-handle assertion, or return
  with \<open>FECTL\<close>, \<open>ISTS\<close> and the interrupt line as they were (the trap of the idle-voice
  method changes all three).
\<close>

definition vp_inert :: "MCPXAPUState \<Rightarrow> error + MCPXAPUState \<Rightarrow> bool" where
  "vp_inert d r =
     (case r of
        Inl e \<Rightarrow> e = Assert_voice_handle \<or> e = Assert_antecedent_voice
      | Inr d' \<Rightarrow> regs d' NV_PAPU_FECTL = regs d NV_PAPU_FECTL
                  \<and> regs d' NV_PAPU_ISTS = regs d NV_PAPU_ISTS \<and> irq d' = irq d)"

text \<open>A reset register value with both \<open>GPRST\<close> and \<open>GPDSPRST\<close> set.\<close>

definition rst_both_set :: "32 word \<Rightarrow> bool" where
  "rst_both_set v = (v AND NV_PAPU_GPRST_GPRST \<noteq> 0 \<and> v AND NV_PAPU_GPRST_GPDSPRST \<noteq> 0)"

text \<open>
  A state in which the GP has been released from reset before: its reset register holds 3
  and the bootstrap call of that release is in the log.
\<close>

definition rst_released_state :: MCPXAPUState where
  "rst_released_state =
     apu_reset_state\<lparr>gp_regs := (gp_regs apu_reset_state)(NV_PAPU_GPRST := 3),
                      gp_dsp := [Dsp_bootstrap]\<rparr>"

text \<open>
  Two states agree on the processors: the reset-register shadows and the call logs of GP
  and EP are the same.
\<close>

definition dsp_same :: "MCPXAPUState \<Rightarrow> MCPXAPUState \<Rightarrow> bool" where
  "dsp_same d d' = (gp_regs d' = gp_regs d \<and> ep_regs d' = ep_regs d
                     \<and> gp_dsp d' = gp_dsp d \<and> ep_dsp d' = ep_dsp d)"

text \<open>
  Parts of the loop bodies of the two transfer functions, named: the clamping of
  \<open>bytes_to_copy\<close> to the remaining length, the address of the page-table entry of a page,
  and the physical address that the entry and the offset in the page give.
\<close>

definition clamp_len :: "32 word \<Rightarrow> 64 word \<Rightarrow> 32 word" where
  "clamp_len btc len = (if (ucast btc :: 64 word) > len then ucast len else btc)"

definition sg_entry :: "hwaddr \<Rightarrow> 32 word \<Rightarrow> hwaddr" where
  "sg_entry sge page = sge + ucast (page * 8)"

definition sg_paddr :: "(hwaddr \<Rightarrow> 8 word) \<Rightarrow> hwaddr \<Rightarrow> 32 word \<Rightarrow> 32 word \<Rightarrow> hwaddr" where
  "sg_paddr m sge page off = ucast (ldl_le_phys m (sg_entry sge page) + off)"

text \<open>
  The circular transfer as the specification words it, on numbers: while bytes remain, a
  chunk of \<open>min (end - cur) remaining\<close> bytes at \<open>cur\<close>, then \<open>cur\<close> advanced by the chunk and
  wrapped to \<open>base\<close> when it reaches \<open>end\<close>. \<open>csg_chunks\<close> lists the chunks (address, size),
  \<open>csg_new_cur\<close> is the position after the last byte, wrap included, and \<open>sg_run\<close> sends a
  list of chunks through the linear primitive, the buffer pointer advancing by each chunk.
\<close>

function csg_chunks :: "nat \<Rightarrow> nat \<Rightarrow> nat \<Rightarrow> nat \<Rightarrow> (nat \<times> nat) list" where
  "csg_chunks b e c r =
     (if r = 0 \<or> e \<le> c then []
      else (c, min (e - c) r)
             # csg_chunks b e (if c + min (e - c) r = e then b else c + min (e - c) r)
                 (r - min (e - c) r))"
  by pat_completeness auto
termination
  by (relation "measure (\<lambda>(b, e, c, r). r)") auto

declare csg_chunks.simps [simp del]

definition csg_new_cur :: "nat \<Rightarrow> nat \<Rightarrow> nat \<Rightarrow> nat \<Rightarrow> nat" where
  "csg_new_cur b e c r = b + (c - b + r) mod (e - b)"

fun sg_run ::
  "32 word \<Rightarrow> hwaddr \<Rightarrow> 32 word \<Rightarrow> bool \<Rightarrow> (nat \<times> nat) list \<Rightarrow> MCPXAPUState \<Rightarrow> (nat \<Rightarrow> 8 word)
     \<Rightarrow> nat \<Rightarrow> (error + MCPXAPUState \<times> (nat \<Rightarrow> 8 word)) option" where
  "sg_run ps sge mx dir [] d buf ptr = Some (Inr (d, buf))"
| "sg_run ps sge mx dir ((a, n) # cs) d buf ptr =
     (case scatter_gather_rw ps d sge mx buf ptr (of_nat a) (of_nat n) dir of
        None \<Rightarrow> None
      | Some (Inl e) \<Rightarrow> Some (Inl e)
      | Some (Inr (d', buf')) \<Rightarrow> sg_run ps sge mx dir cs d' buf' (ptr + n))"

text \<open>The test pattern of the worked DMA examples: byte \<open>k\<close> of the buffer is \<open>k + 1\<close>.\<close>

definition pattern :: "nat \<Rightarrow> 8 word" where
  "pattern k = of_nat (k + 1)"

text \<open>
  The pieces of a transfer. One iteration of the loop of \<open>scatter_gather_rw\<close> moves one
  piece: the page entry it uses, the address of that entry in the table, the physical
  address it computes from the entry, the position in the host buffer and the number of
  bytes. \<open>sg_plan\<close> lists the pieces of one linear transfer and \<open>csg_plan\<close> those of a circular
  transfer, with the loop variables of the source stepped as the source steps them (the
  remaining length as a number) and the table read from one fixed memory \<open>m\<close>.
\<close>

type_synonym piece = "32 word \<times> hwaddr \<times> hwaddr \<times> nat \<times> nat"

function sg_plan ::
  "32 word \<Rightarrow> (hwaddr \<Rightarrow> 8 word) \<Rightarrow> hwaddr \<Rightarrow> nat \<Rightarrow> nat \<Rightarrow> 32 word \<Rightarrow> 32 word \<Rightarrow> 32 word
     \<Rightarrow> piece list" where
  "sg_plan ps m sge ptr r page off btc =
     (if r = 0 \<or> btc = 0 then []
      else (page, sg_entry sge page, sg_paddr m sge page off, ptr, min (unat btc) r)
             # sg_plan ps m sge (ptr + min (unat btc) r) (r - min (unat btc) r) (page + 1) 0 ps)"
  by pat_completeness auto
termination
  by (relation "measure (\<lambda>(ps, m, sge, ptr, r, page, off, btc). r)") (auto simp: unat_gt_0)

declare sg_plan.simps [simp del]

function csg_plan ::
  "32 word \<Rightarrow> (hwaddr \<Rightarrow> 8 word) \<Rightarrow> hwaddr \<Rightarrow> nat \<Rightarrow> 32 word \<Rightarrow> 32 word \<Rightarrow> 32 word \<Rightarrow> nat
     \<Rightarrow> piece list" where
  "csg_plan ps m sge ptr base fend cur r =
     (if r = 0 \<or> \<not> (base \<le> cur \<and> cur < fend) then []
      else sg_plan ps m sge ptr (min (unat (fend - cur)) r) (cur div ps) (cur mod ps)
             (ps - cur mod ps)
           @ csg_plan ps m sge (ptr + min (unat (fend - cur)) r) base fend
               (if cur + of_nat (min (unat (fend - cur)) r) = fend then base
                else cur + of_nat (min (unat (fend - cur)) r))
               (r - min (unat (fend - cur)) r))"
  by pat_completeness auto
termination
  by (relation "measure (\<lambda>(ps, m, sge, ptr, base, fend, cur, r). r)")
     (auto simp: unat_gt_0)

declare csg_plan.simps [simp del]

text \<open>
  What a list of pieces does to guest memory when written from a buffer, and to a buffer when
  read from guest memory: the \<open>memcpy\<close> of each piece in turn.
\<close>

fun write_plan :: "(nat \<Rightarrow> 8 word) \<Rightarrow> piece list \<Rightarrow> (hwaddr \<Rightarrow> 8 word) \<Rightarrow> (hwaddr \<Rightarrow> 8 word)" where
  "write_plan buf [] m = m"
| "write_plan buf ((pg, ea, pa, p, n) # xs) m = write_plan buf xs (memcpy_to_ram m pa buf p n)"

fun read_plan :: "(hwaddr \<Rightarrow> 8 word) \<Rightarrow> piece list \<Rightarrow> (nat \<Rightarrow> 8 word) \<Rightarrow> (nat \<Rightarrow> 8 word)" where
  "read_plan m [] b = b"
| "read_plan m ((pg, ea, pa, p, n) # xs) b = read_plan m xs (memcpy_from_ram b p m pa n)"

text \<open>
  Separation of the pieces of a transfer. \<open>tgt_disj\<close>: the physical ranges of two pieces do
  not overlap. \<open>tab_clear x y\<close>: the four bytes of the table entry of piece \<open>x\<close> do not wrap
  around the address space and lie outside the physical range of piece \<open>y\<close>. \<open>plan_sep\<close>: the
  physical ranges of distinct pieces are pairwise disjoint and no table entry in use lies
  in a physical range of the transfer. \<open>piece_ok\<close> is the pair of assertions of the loop on
  a piece, \<open>piece_wf\<close> says that a physical range does not wrap, \<open>consec\<close> that the pieces
  take consecutive parts of the buffer, and \<open>plan_len\<close> is the number of bytes moved.
\<close>

fun tgt_disj :: "piece \<Rightarrow> piece \<Rightarrow> bool" where
  "tgt_disj (pg, ea, pa, p, n) (pg', ea', pa', p', n') =
     (unat pa + n \<le> unat pa' \<or> unat pa' + n' \<le> unat pa)"

fun tab_clear :: "piece \<Rightarrow> piece \<Rightarrow> bool" where
  "tab_clear (pg, ea, pa, p, n) (pg', ea', pa', p', n') =
     (unat ea + 4 \<le> 2 ^ 64 \<and> (unat ea + 4 \<le> unat pa' \<or> unat pa' + n' \<le> unat ea))"

fun plan_sep :: "piece list \<Rightarrow> bool" where
  "plan_sep [] = True"
| "plan_sep (x # xs) =
     (tab_clear x x \<and> list_all (\<lambda>y. tgt_disj x y \<and> tab_clear x y \<and> tab_clear y x) xs
      \<and> plan_sep xs)"

fun piece_ok :: "32 word \<Rightarrow> 64 word \<Rightarrow> piece \<Rightarrow> bool" where
  "piece_ok mx rs (pg, ea, pa, p, n) = (pg \<le> mx \<and> pa + of_nat n < rs)"

fun piece_wf :: "piece \<Rightarrow> bool" where
  "piece_wf (pg, ea, pa, p, n) = (unat pa + n \<le> 2 ^ 64)"

fun consec :: "nat \<Rightarrow> piece list \<Rightarrow> bool" where
  "consec q [] = True"
| "consec q ((pg, ea, pa, p, n) # xs) = (p = q \<and> consec (q + n) xs)"

fun plan_len :: "piece list \<Rightarrow> nat" where
  "plan_len [] = 0"
| "plan_len ((pg, ea, pa, p, n) # xs) = n + plan_len xs"

text \<open>
  States of the worked ring-buffer examples, all from the reset state with 4 KiB pages:
  \<open>ring_state\<close> after six pattern bytes written at \<open>cur = 0x104\<close> into the window
  \<open>[0x100, 0x108)\<close>; \<open>overrun_state\<close> after eight pattern bytes written into the four-byte
  window \<open>[0x100, 0x104)\<close>; \<open>alias_state\<close> after 0x1001 bytes of \<open>mark\<close> (first byte 1, the
  others 0) written at \<open>0xFFF\<close> through a table whose entries for pages 0 and 1 are both 0;
  \<open>clobber_state\<close> after four pattern bytes written at \<open>0x100\<close> while the table itself is at
  physical address \<open>0x100\<close>.
\<close>

definition ring_state :: MCPXAPUState where
  "ring_state = apu_reset_state\<lparr>mem :=
     memcpy_to_ram (memcpy_to_ram (\<lambda>a. 0) 0x104 pattern 0 4) 0x100 pattern 4 2\<rparr>"

definition overrun_state :: MCPXAPUState where
  "overrun_state = apu_reset_state\<lparr>mem :=
     memcpy_to_ram (memcpy_to_ram (\<lambda>a. 0) 0x100 pattern 0 4) 0x100 pattern 4 4\<rparr>"

definition mark :: "nat \<Rightarrow> 8 word" where
  "mark k = (if k = 0 then 1 else 0)"

definition alias_state :: MCPXAPUState where
  "alias_state = apu_reset_state\<lparr>mem :=
     memcpy_to_ram (memcpy_to_ram (\<lambda>a. 0) 0xFFF mark 0 1) 0 mark 1 0x1000\<rparr>"

definition clobber_state :: MCPXAPUState where
  "clobber_state = apu_reset_state\<lparr>mem := memcpy_to_ram (\<lambda>a. 0) 0x100 pattern 0 4\<rparr>"

text \<open>
  When the traversal of a voice list ends. \<open>trap_forced\<close>: bit 15 of \<open>FETFORCE1\<close>, which lets
  \<open>fe_method\<close> take the idle-voice trap instead of failing its assertion. \<open>list_ends n d h\<close>:
  from the handle \<open>h\<close>, following the next-voice links of the voice records of \<open>d\<close>, the end
  marker \<open>0xFFFF\<close> is reached after at most \<open>n\<close> voices, every handle on the way is below
  \<open>0xFFFF\<close> (the assertion of \<open>voice_get_mask\<close>) and every voice on the way is active or the
  trap is forced. \<open>voices_same\<close>: two states have the same memory and the same registers
  among those the traversal reads without writing them.
\<close>

definition trap_forced :: "MCPXAPUState \<Rightarrow> bool" where
  "trap_forced d = (regs d NV_PAPU_FETFORCE1 AND NV_PAPU_FETFORCE1_SE2FE_IDLE_VOICE \<noteq> 0)"

fun list_ends :: "nat \<Rightarrow> MCPXAPUState \<Rightarrow> 32 word \<Rightarrow> bool" where
  "list_ends 0 d h = (h = 0xFFFF)"
| "list_ends (Suc n) d h =
     (if h = 0xFFFF then True
      else case next_link d h of
             Inl e \<Rightarrow> False
           | Inr nx \<Rightarrow>
               (case voice_active d h of
                  Inl e \<Rightarrow> False
                | Inr a \<Rightarrow> (if a = 0 then trap_forced d else True) \<and> list_ends n d nx))"

definition voices_same :: "MCPXAPUState \<Rightarrow> MCPXAPUState \<Rightarrow> bool" where
  "voices_same d d' =
     (mem d' = mem d \<and> regs d' NV_PAPU_VPVADDR = regs d NV_PAPU_VPVADDR
      \<and> regs d' NV_PAPU_FETFORCE1 = regs d NV_PAPU_FETFORCE1
      \<and> regs d' NV_PAPU_TVL2D = regs d NV_PAPU_TVL2D
      \<and> regs d' NV_PAPU_TVL3D = regs d NV_PAPU_TVL3D
      \<and> regs d' NV_PAPU_TVLMP = regs d NV_PAPU_TVLMP)"

text \<open>
  Three states at a frame tick. \<open>hang_state\<close>: the idle-voice trap forced, both processors
  released from reset (reset registers 3), the 2D list starting at voice 0, whose record is
  all zero: it is not active and its next-voice link is 0, the voice itself.
  \<open>abort_state\<close>: the same with the trap not forced. \<open>busy_frame_state\<close>: the trap forced, GP
  released and EP not (reset registers 3 and 1); the 2D list holds voice 0, active, and the
  3D list voice 1, not active, each with the next-voice link \<open>0xFFFF\<close>; the MP list is
  empty.
\<close>

definition hang_state :: MCPXAPUState where
  "hang_state =
     idle_trap_state\<lparr>gp_regs := (gp_regs idle_trap_state)(NV_PAPU_GPRST := 3),
                      ep_regs := (ep_regs idle_trap_state)(NV_PAPU_EPRST := 3)\<rparr>"

definition abort_state :: MCPXAPUState where
  "abort_state =
     apu_reset_state\<lparr>gp_regs := (gp_regs apu_reset_state)(NV_PAPU_GPRST := 3),
                      ep_regs := (ep_regs apu_reset_state)(NV_PAPU_EPRST := 3)\<rparr>"

definition busy_frame_state :: MCPXAPUState where
  "busy_frame_state =
     apu_reset_state\<lparr>regs := (regs apu_reset_state)
        (NV_PAPU_TVL2D := 0, NV_PAPU_TVL3D := 1, NV_PAPU_TVLMP := 0xFFFF,
         NV_PAPU_FETFORCE1 := 0x8000),
      gp_regs := (gp_regs apu_reset_state)(NV_PAPU_GPRST := 3),
      ep_regs := (ep_regs apu_reset_state)(NV_PAPU_EPRST := 1),
      mem := stl_le_phys (stl_le_phys (stl_le_phys (\<lambda>a. 0) 0x7C 0xFFFF) 0x54 0x200000)
               0xFC 0xFFFF\<rparr>"

section \<open>Unfolding rules\<close>

lemmas reg_defs =
  NV_PAPU_ISTS_def NV_PAPU_ISTS_GINTSTS_def NV_PAPU_ISTS_FETINTSTS_def NV_PAPU_IEN_def
  NV_PAPU_FECTL_def NV_PAPU_FECTL_FEMETHMODE_def NV_PAPU_FECTL_FEMETHMODE_TRAPPED_def
  NV_PAPU_FECTL_FETRAPREASON_def NV_PAPU_FECTL_FETRAPREASON_REQUESTED_def
  NV_PAPU_FECV_def NV_PAPU_FEAV_def NV_PAPU_FEAV_VALUE_def NV_PAPU_FEAV_LST_def
  NV_PAPU_FEDECMETH_def NV_PAPU_FEDECPARAM_def NV_PAPU_FEMEMADDR_def NV_PAPU_FEMEMDATA_def
  NV_PAPU_FETFORCE1_def NV_PAPU_FETFORCE1_SE2FE_IDLE_VOICE_def
  NV_PAPU_SECTL_def NV_PAPU_SECTL_XCNTMODE_def NV_PAPU_SECTL_XCNTMODE_OFF_def
  NV_PAPU_VPVADDR_def NV_PAPU_GPFADDR_def
  NV_PAPU_TVL2D_def NV_PAPU_CVL2D_def NV_PAPU_NVL2D_def
  NV_PAPU_TVL3D_def NV_PAPU_CVL3D_def NV_PAPU_NVL3D_def
  NV_PAPU_TVLMP_def NV_PAPU_CVLMP_def NV_PAPU_NVLMP_def NV_PAPU_GPFMAXSGE_def
  NV_PAPU_GPOFBASE0_def NV_PAPU_GPOFBASE0_VALUE_def NV_PAPU_GPOFEND0_def
  NV_PAPU_GPOFEND0_VALUE_def NV_PAPU_GPOFCUR0_def NV_PAPU_GPOFCUR0_VALUE_def
  NV_PAPU_GPIFBASE0_def NV_PAPU_GPIFEND0_def NV_PAPU_GPIFCUR0_def
  NV_PAPU_GPXMEM_def NV_PAPU_GPMIXBUF_def NV_PAPU_GPYMEM_def NV_PAPU_GPPMEM_def
  NV_PAPU_GPRST_def NV_PAPU_GPRST_GPRST_def NV_PAPU_GPRST_GPDSPRST_def NV_PAPU_EPRST_def
  NV1BA0_PIO_SET_ANTECEDENT_VOICE_def NV1BA0_PIO_SET_ANTECEDENT_VOICE_LIST_INHERIT_def
  NV1BA0_PIO_VOICE_ON_def NV1BA0_PIO_VOICE_ON_HANDLE_def NV1BA0_PIO_VOICE_OFF_def
  NV1BA0_PIO_VOICE_OFF_HANDLE_def NV1BA0_PIO_VOICE_PAUSE_def
  NV1BA0_PIO_VOICE_PAUSE_HANDLE_def NV1BA0_PIO_VOICE_PAUSE_ACTION_def
  NV1BA0_PIO_SET_CURRENT_VOICE_def SE2FE_IDLE_VOICE_def
  NV_PAVS_SIZE_def NV_PAVS_VOICE_PAR_STATE_def NV_PAVS_VOICE_PAR_STATE_PAUSED_def
  NV_PAVS_VOICE_PAR_STATE_ACTIVE_VOICE_def NV_PAVS_VOICE_TAR_PITCH_LINK_def
  NV_PAVS_VOICE_TAR_PITCH_LINK_NEXT_VOICE_HANDLE_def
  GP_DSP_MIXBUF_BASE_def GP_OUTPUT_FIFO_COUNT_def GP_INPUT_FIFO_COUNT_def

section \<open>Bit-field facts\<close>

lemma ctz32_vals:
  "ctz32 0xFFFF = 0" "ctz32 0x30000 = 16" "ctz32 0x200000 = 21" "ctz32 0x40000 = 18"
  "ctz32 0xFFFF00 = 8" "ctz32 0xFFFFFC = 2"
  by (simp_all add: ctz32_def upt_rec)

lemma or1_and_not1: "((x::32 word) OR 1) AND - 2 = x AND - 2"
proof -
  have "((x::32 word) OR 1) AND NOT 1 = x AND NOT 1"
    by (rule bit_eqI) (auto simp: bit_simps)
  then show ?thesis by simp
qed

lemma and_not1_and1: "((x::32 word) AND - 2) AND 1 = 0"
proof -
  have "((x::32 word) AND NOT 1) AND 1 = 0"
    by (rule bit_eqI) (auto simp: bit_simps)
  then show ?thesis by simp
qed

lemma or1_and1: "((x::32 word) OR 1) AND 1 = 1"
  by (rule bit_eqI) (auto simp: bit_simps)

lemma ucast_and_not_64_32:
  "(ucast ((ucast (s::32 word) :: 64 word) AND NOT val) :: 32 word) = s AND NOT (ucast val)"
  by (rule bit_eqI) (auto simp: bit_simps)

section \<open>Interrupt arbiter\<close>

lemma update_irq_arbiter: "arbiter_rule (update_irq d)"
  by (simp add: arbiter_rule_def update_irq_def reg_defs or1_and_not1 and_not1_and1 or1_and1)

lemma update_irq_regs_other:
  "a \<noteq> NV_PAPU_ISTS \<Longrightarrow> regs (update_irq d) a = regs d a"
  by (simp add: update_irq_def)

lemma update_irq_ISTS_high:
  "regs (update_irq d) NV_PAPU_ISTS AND NOT NV_PAPU_ISTS_GINTSTS
     = regs d NV_PAPU_ISTS AND NOT NV_PAPU_ISTS_GINTSTS"
proof -
  have "((x::32 word) AND NOT 1) AND NOT 1 = x AND NOT 1" for x
    by (rule bit_eqI) (auto simp: bit_simps)
  then show ?thesis
    by (simp add: update_irq_def reg_defs or1_and_not1)
qed

lemma update_irq_ISTS_FETINTSTS:
  "regs (update_irq d) NV_PAPU_ISTS AND NV_PAPU_ISTS_FETINTSTS
     = regs d NV_PAPU_ISTS AND NV_PAPU_ISTS_FETINTSTS"
proof -
  have d: "((x::32 word) OR 1) AND 0x10 = x AND 0x10" for x
    by (simp add: word_ao_dist)
  have e: "((x::32 word) AND NOT 1) AND 0x10 = x AND 0x10" for x
    by (simp add: and.assoc)
  show ?thesis using d e by (simp add: update_irq_def reg_defs)
qed

text \<open>A write to \<open>ISTS\<close> re-establishes the arbiter rule, whatever the state before.\<close>

lemma mcpx_apu_write_ISTS_arbiter: "arbiter_rule (mcpx_apu_write d NV_PAPU_ISTS val sz)"
  by (simp add: mcpx_apu_write_def update_irq_arbiter)

text \<open>
  C1 (the code at the failing input). With \<open>ISTS = 0x10\<close> pending, \<open>IEN = 0\<close> and the line
  down the arbiter rule holds. The guest then writes \<open>0x11\<close> to \<open>IEN\<close> (offset 0x1004): the
  write takes the default branch, which stores the value and does not call \<open>update_irq\<close>.
  Afterwards \<open>IEN.GINTSTS\<close> is set and the enabled bit 4 is pending, yet \<open>ISTS.GINTSTS\<close> is
  clear and the line is still down: the arbiter rule does not hold after the write.
\<close>

theorem C1_ien_write_leaves_irq_stale:
  "arbiter_rule ists_pending_state
   \<and> \<not> arbiter_rule (mcpx_apu_write ists_pending_state NV_PAPU_IEN 0x11 4)
   \<and> regs (mcpx_apu_write ists_pending_state NV_PAPU_IEN 0x11 4) NV_PAPU_IEN = 0x11
   \<and> regs (mcpx_apu_write ists_pending_state NV_PAPU_IEN 0x11 4) NV_PAPU_ISTS = 0x10
   \<and> irq (mcpx_apu_write ists_pending_state NV_PAPU_IEN 0x11 4) = False"
  by (simp add: arbiter_rule_def mcpx_apu_write_def ists_pending_state_def apu_reset_state_def
      reg_defs)

text \<open>
  C7. A write of \<open>val\<close> to \<open>ISTS\<close> (offset 0x1000) with stored value \<open>s\<close> is the interrupt
  re-evaluation applied to the state in which \<open>ISTS\<close> holds \<open>s AND NOT val\<close> (the low 32
  bits of the written value count). Bit by bit: a bit of the stored value is set after the
  clearing step exactly when it was set in \<open>s\<close> and the written bit is 0, so a set bit is
  cleared iff its written bit is 1 and no clear bit becomes set. The re-evaluation afterwards
  changes \<open>GINTSTS\<close> (bit 0) only.
\<close>

theorem C7_ists_write_one_to_clear:
  "mcpx_apu_write d NV_PAPU_ISTS val sz
     = update_irq (d\<lparr>regs := (regs d)(NV_PAPU_ISTS := regs d NV_PAPU_ISTS AND NOT (ucast val))\<rparr>)
   \<and> (bit (regs d NV_PAPU_ISTS AND NOT (ucast val :: 32 word)) n
        \<longleftrightarrow> bit (regs d NV_PAPU_ISTS) n \<and> \<not> bit val n)
   \<and> regs (mcpx_apu_write d NV_PAPU_ISTS val sz) NV_PAPU_ISTS AND NOT NV_PAPU_ISTS_GINTSTS
       = (regs d NV_PAPU_ISTS AND NOT (ucast val)) AND NOT NV_PAPU_ISTS_GINTSTS"
proof (intro conjI)
  show w: "mcpx_apu_write d NV_PAPU_ISTS val sz
     = update_irq (d\<lparr>regs := (regs d)(NV_PAPU_ISTS := regs d NV_PAPU_ISTS AND NOT (ucast val))\<rparr>)"
    by (simp add: mcpx_apu_write_def ucast_and_not_64_32)
  show "bit (regs d NV_PAPU_ISTS AND NOT (ucast val :: 32 word)) n
        \<longleftrightarrow> bit (regs d NV_PAPU_ISTS) n \<and> \<not> bit val n"
    by (auto simp: bit_simps dest: bit_imp_le_length)
  show "regs (mcpx_apu_write d NV_PAPU_ISTS val sz) NV_PAPU_ISTS AND NOT NV_PAPU_ISTS_GINTSTS
       = (regs d NV_PAPU_ISTS AND NOT (ucast val)) AND NOT NV_PAPU_ISTS_GINTSTS"
    unfolding w update_irq_ISTS_high by simp
qed

section \<open>Front-end methods\<close>

lemma fe_method_idle_voice:
  "fe_method d SE2FE_IDLE_VOICE arg =
     (if regs d NV_PAPU_FETFORCE1 AND NV_PAPU_FETFORCE1_SE2FE_IDLE_VOICE \<noteq> 0
      then Inr (update_irq (d\<lparr>regs := (regs d)(NV_PAPU_FEDECMETH := SE2FE_IDLE_VOICE,
              NV_PAPU_FEDECPARAM := arg,
              NV_PAPU_FECTL := ((regs d NV_PAPU_FECTL AND NOT NV_PAPU_FECTL_FEMETHMODE
                   OR NV_PAPU_FECTL_FEMETHMODE_TRAPPED) AND NOT NV_PAPU_FECTL_FETRAPREASON)
                   OR NV_PAPU_FECTL_FETRAPREASON_REQUESTED,
              NV_PAPU_ISTS := regs d NV_PAPU_ISTS OR NV_PAPU_ISTS_FETINTSTS)\<rparr>))
      else Inl Assert_idle_voice)"
  by (simp add: fe_method_def Let_def reg_defs)

text \<open>
  C5. \<open>fe_method\<close> with the method \<open>SE2FE_IDLE_VOICE\<close>: when bit 15 of \<open>FETFORCE1\<close> is set the
  call returns, and afterwards \<open>FECTL.FEMETHMODE\<close> is TRAPPED, \<open>FECTL.FETRAPREASON\<close> is
  REQUESTED, \<open>ISTS.FETINTSTS\<close> is set and the interrupt state satisfies the arbiter rule;
  when the bit is clear the call ends in the \<open>assert(false)\<close> of that branch.
\<close>

theorem C5_idle_voice_trap:
  "(if regs d NV_PAPU_FETFORCE1 AND NV_PAPU_FETFORCE1_SE2FE_IDLE_VOICE \<noteq> 0
    then (case fe_method d SE2FE_IDLE_VOICE arg of
            Inl e \<Rightarrow> False
          | Inr d' \<Rightarrow>
              regs d' NV_PAPU_FECTL AND NV_PAPU_FECTL_FEMETHMODE = NV_PAPU_FECTL_FEMETHMODE_TRAPPED
              \<and> regs d' NV_PAPU_FECTL AND NV_PAPU_FECTL_FETRAPREASON
                   = NV_PAPU_FECTL_FETRAPREASON_REQUESTED
              \<and> regs d' NV_PAPU_ISTS AND NV_PAPU_ISTS_FETINTSTS = NV_PAPU_ISTS_FETINTSTS
              \<and> arbiter_rule d')
    else fe_method d SE2FE_IDLE_VOICE arg = Inl Assert_idle_voice)"
proof -
  have a: "((((x::32 word) AND NOT 0xE0) OR 0xE0) AND NOT 0xF00 OR 0xF00) AND 0xE0 = 0xE0" for x
    by (rule bit_eqI) (auto simp: bit_simps)
  have b: "((((x::32 word) AND NOT 0xE0) OR 0xE0) AND NOT 0xF00 OR 0xF00) AND 0xF00 = 0xF00" for x
    by (rule bit_eqI) (auto simp: bit_simps)
  have c: "((x::32 word) OR 0x10) AND 0x10 = 0x10" for x
    by (rule bit_eqI) (auto simp: bit_simps)
  have ne: "NV_PAPU_FECTL \<noteq> NV_PAPU_ISTS" by (simp add: reg_defs)
  show ?thesis
    unfolding fe_method_idle_voice
    apply (simp add: update_irq_arbiter update_irq_ISTS_FETINTSTS update_irq_regs_other [OF ne])
    using a b c apply (simp add: reg_defs)
    done
qed

text \<open>
  C5 at concrete inputs: with the enable bit set in an otherwise zero state the trap is
  taken, and from the zero state (enable bit clear) the call fails.
\<close>

theorem C5_idle_voice_trap_witness:
  "regs idle_trap_state NV_PAPU_FETFORCE1 AND NV_PAPU_FETFORCE1_SE2FE_IDLE_VOICE \<noteq> 0
   \<and> (case fe_method idle_trap_state SE2FE_IDLE_VOICE 5 of
         Inl e \<Rightarrow> False
       | Inr d' \<Rightarrow>
           regs d' NV_PAPU_FECTL AND NV_PAPU_FECTL_FEMETHMODE = NV_PAPU_FECTL_FEMETHMODE_TRAPPED
           \<and> regs d' NV_PAPU_FECTL AND NV_PAPU_FECTL_FETRAPREASON
                = NV_PAPU_FECTL_FETRAPREASON_REQUESTED
           \<and> regs d' NV_PAPU_ISTS AND NV_PAPU_ISTS_FETINTSTS = NV_PAPU_ISTS_FETINTSTS
           \<and> arbiter_rule d')
   \<and> regs apu_reset_state NV_PAPU_FETFORCE1 AND NV_PAPU_FETFORCE1_SE2FE_IDLE_VOICE = 0
   \<and> fe_method apu_reset_state SE2FE_IDLE_VOICE 5 = Inl Assert_idle_voice"
proof -
  have h: "regs idle_trap_state NV_PAPU_FETFORCE1 AND NV_PAPU_FETFORCE1_SE2FE_IDLE_VOICE \<noteq> 0"
    by (simp add: idle_trap_state_def apu_reset_state_def reg_defs)
  have g: "regs apu_reset_state NV_PAPU_FETFORCE1 AND NV_PAPU_FETFORCE1_SE2FE_IDLE_VOICE = 0"
    by (simp add: apu_reset_state_def)
  show ?thesis
    using h g C5_idle_voice_trap [of idle_trap_state 5] C5_idle_voice_trap [of apu_reset_state 5]
    by (simp only: if_True if_False not_not simp_thms)
qed

section \<open>Front-end methods, one by one\<close>

lemma fe_method_set_antecedent:
  "fe_method d NV1BA0_PIO_SET_ANTECEDENT_VOICE a =
     Inr (d\<lparr>regs := (regs d)(NV_PAPU_FEDECMETH := NV1BA0_PIO_SET_ANTECEDENT_VOICE,
            NV_PAPU_FEDECPARAM := a, NV_PAPU_FEAV := a)\<rparr>)"
  by (simp add: fe_method_def Let_def)

lemma fe_method_voice_off:
  "fe_method d NV1BA0_PIO_VOICE_OFF a =
     voice_set_mask (d\<lparr>regs := (regs d)(NV_PAPU_FEDECMETH := NV1BA0_PIO_VOICE_OFF,
            NV_PAPU_FEDECPARAM := a)\<rparr>) (a AND NV1BA0_PIO_VOICE_OFF_HANDLE)
       NV_PAVS_VOICE_PAR_STATE NV_PAVS_VOICE_PAR_STATE_ACTIVE_VOICE 0"
  by (simp add: fe_method_def Let_def reg_defs)

lemma fe_method_voice_pause:
  "fe_method d NV1BA0_PIO_VOICE_PAUSE a =
     voice_set_mask (d\<lparr>regs := (regs d)(NV_PAPU_FEDECMETH := NV1BA0_PIO_VOICE_PAUSE,
            NV_PAPU_FEDECPARAM := a)\<rparr>) (a AND NV1BA0_PIO_VOICE_PAUSE_HANDLE)
       NV_PAVS_VOICE_PAR_STATE NV_PAVS_VOICE_PAR_STATE_PAUSED
       (if a AND NV1BA0_PIO_VOICE_PAUSE_ACTION \<noteq> 0 then 1 else 0)"
  by (simp add: fe_method_def Let_def reg_defs)

lemma fe_method_set_current:
  "fe_method d NV1BA0_PIO_SET_CURRENT_VOICE a =
     Inr (d\<lparr>regs := (regs d)(NV_PAPU_FEDECMETH := NV1BA0_PIO_SET_CURRENT_VOICE,
            NV_PAPU_FEDECPARAM := a, NV_PAPU_FECV := a)\<rparr>)"
  by (simp add: fe_method_def Let_def reg_defs)


lemma fe_method_voice_on:
  "fe_method d0 NV1BA0_PIO_VOICE_ON argument =
     (let d = d0\<lparr>regs := (regs d0)(NV_PAPU_FEDECMETH := NV1BA0_PIO_VOICE_ON,
                                      NV_PAPU_FEDECPARAM := argument)\<rparr>;
          selected_handle = argument AND NV1BA0_PIO_VOICE_ON_HANDLE;
          lst = GET_MASK (regs d0 NV_PAPU_FEAV) NV_PAPU_FEAV_LST;
          r = (if lst \<noteq> NV1BA0_PIO_SET_ANTECEDENT_VOICE_LIST_INHERIT then
                 (case voice_set_mask d selected_handle NV_PAVS_VOICE_TAR_PITCH_LINK
                           NV_PAVS_VOICE_TAR_PITCH_LINK_NEXT_VOICE_HANDLE
                           (regs d0 (voice_list_top (lst - 1))) of
                    Inl e \<Rightarrow> Inl e
                  | Inr d1 \<Rightarrow>
                      Inr (d1\<lparr>regs := (regs d1)(voice_list_top (lst - 1) := selected_handle)\<rparr>))
               else
                 (let antecedent_voice = GET_MASK (regs d0 NV_PAPU_FEAV) NV_PAPU_FEAV_VALUE
                  in if antecedent_voice = 0xFFFF then Inl Assert_antecedent_voice
                     else case voice_get_mask d antecedent_voice NV_PAVS_VOICE_TAR_PITCH_LINK
                                 NV_PAVS_VOICE_TAR_PITCH_LINK_NEXT_VOICE_HANDLE of
                       Inl e \<Rightarrow> Inl e
                     | Inr next_handle \<Rightarrow>
                         (case voice_set_mask d selected_handle NV_PAVS_VOICE_TAR_PITCH_LINK
                                 NV_PAVS_VOICE_TAR_PITCH_LINK_NEXT_VOICE_HANDLE next_handle of
                            Inl e \<Rightarrow> Inl e
                          | Inr d1 \<Rightarrow>
                              voice_set_mask d1 antecedent_voice NV_PAVS_VOICE_TAR_PITCH_LINK
                                 NV_PAVS_VOICE_TAR_PITCH_LINK_NEXT_VOICE_HANDLE selected_handle)))
      in case r of
           Inl e \<Rightarrow> Inl e
         | Inr d2 \<Rightarrow> voice_set_mask d2 selected_handle NV_PAVS_VOICE_PAR_STATE
                        NV_PAVS_VOICE_PAR_STATE_ACTIVE_VOICE 1)"
proof -
  have ne: "NV1BA0_PIO_VOICE_ON \<noteq> NV1BA0_PIO_SET_ANTECEDENT_VOICE"
    by (simp add: reg_defs)
  have r: "voice_list_top l \<noteq> NV_PAPU_FEDECMETH" "voice_list_top l \<noteq> NV_PAPU_FEDECPARAM"
          "NV_PAPU_FEAV \<noteq> NV_PAPU_FEDECMETH" "NV_PAPU_FEAV \<noteq> NV_PAPU_FEDECPARAM" for l
    by (simp_all add: reg_defs voice_list_top_def)
  show ?thesis
    by (simp add: fe_method_def Let_def ne r)
qed

section \<open>Guest memory and voice records\<close>

lemma bytes_recompose:
  "(ucast (ucast (v::32 word) :: 8 word) :: 32 word)
     OR push_bit 8 (ucast (ucast (drop_bit 8 v) :: 8 word))
     OR push_bit 16 (ucast (ucast (drop_bit 16 v) :: 8 word))
     OR push_bit 24 (ucast (ucast (drop_bit 24 v) :: 8 word)) = v"
proof (rule bit_eqI)
  fix n
  assume "possible_bit TYPE(32 word) n"
  then have n: "n < 32" by simp
  consider "n < 8" | "8 \<le> n" "n < 16" | "16 \<le> n" "n < 24" | "24 \<le> n"
    by linarith
  then show "bit ((ucast (ucast v :: 8 word) :: 32 word)
     OR push_bit 8 (ucast (ucast (drop_bit 8 v) :: 8 word))
     OR push_bit 16 (ucast (ucast (drop_bit 16 v) :: 8 word))
     OR push_bit 24 (ucast (ucast (drop_bit 24 v) :: 8 word))) n = bit v n"
    using n by cases (auto simp: bit_simps)
qed

lemma ldl_stl_same: "ldl_le_phys (stl_le_phys m a v) a = v"
  by (simp add: ldl_le_phys_def stl_le_phys_def bytes_recompose)

lemma word64_add_neq:
  assumes "unat a + i \<noteq> unat b + j" "unat a + i < 2 ^ 64" "unat b + j < 2 ^ 64"
  shows "a + of_nat i \<noteq> b + (of_nat j :: 64 word)"
proof -
  have "unat (a + of_nat i) = unat a + i" "unat (b + of_nat j) = unat b + j"
    using assms by (simp_all add: unat_word_ariths unat_of_nat)
  with assms(1) show ?thesis by metis
qed


lemma ldl_stl_disj:
  assumes d: "unat a + 4 \<le> unat b \<or> unat b + 4 \<le> unat a"
    and a: "unat a + 4 \<le> 2 ^ 64" and b: "unat b + 4 \<le> 2 ^ 64"
  shows "ldl_le_phys (stl_le_phys m a v) b = ldl_le_phys m b"
proof -
  have ne: "b + of_nat j \<noteq> a + of_nat i" if "i < 4" "j < 4" for i j
    using d a b that by (intro word64_add_neq) auto
  have "b \<noteq> a" "b \<noteq> a + 1" "b \<noteq> a + 2" "b \<noteq> a + 3"
       "b + 1 \<noteq> a" "b + 1 \<noteq> a + 1" "b + 1 \<noteq> a + 2" "b + 1 \<noteq> a + 3"
       "b + 2 \<noteq> a" "b + 2 \<noteq> a + 1" "b + 2 \<noteq> a + 2" "b + 2 \<noteq> a + 3"
       "b + 3 \<noteq> a" "b + 3 \<noteq> a + 1" "b + 3 \<noteq> a + 2" "b + 3 \<noteq> a + 3"
    using ne [of 0 0] ne [of 1 0] ne [of 2 0] ne [of 3 0]
          ne [of 0 1] ne [of 1 1] ne [of 2 1] ne [of 3 1]
          ne [of 0 2] ne [of 1 2] ne [of 2 2] ne [of 3 2]
          ne [of 0 3] ne [of 1 3] ne [of 2 3] ne [of 3 3]
    by simp_all
  then show ?thesis
    by (simp add: ldl_le_phys_def stl_le_phys_def)
qed

text \<open>The address of a field of a voice record, as a number.\<close>

lemma unat_voice_field:
  "off < 0x80 \<Longrightarrow> unat ((ucast (x :: 32 word) :: 64 word) + off) = unat x + unat off"
proof -
  assume "off < 0x80"
  then have "unat off < 128" by (simp add: word_less_nat_alt)
  moreover have "unat x < 2 ^ 32" using unsigned_less [of x, where 'a = nat] by simp
  ultimately show ?thesis
    by (simp add: unat_word_ariths unsigned_ucast_eq take_bit_nat_eq_self)
qed

lemma mod_2n:
  fixes x n :: nat
  assumes "x < 2 * n"
  shows "x mod n = (if x < n then x else x - n)"
proof (cases "x < n")
  case True then show ?thesis by simp
next
  case False
  then have "x mod n = (x - n) mod n" by (simp add: le_mod_geq)
  also have "\<dots> = x - n" using assms False by simp
  finally show ?thesis using False by simp
qed

lemma voice_addr_sep:
  fixes vp a h :: "32 word"
  assumes "a < 0xFFFF" "h < 0xFFFF" "a \<noteq> h"
  shows "unat (vp + a * 0x80) + 128 \<le> unat (vp + h * 0x80)
         \<or> unat (vp + h * 0x80) + 128 \<le> unat (vp + a * 0x80)"
proof -
  have A: "unat a < 65535" and H: "unat h < 65535"
    using assms by (simp_all add: word_less_nat_alt)
  have ne: "unat a \<noteq> unat h" using assms(3) by (simp add: word_unat_eq_iff)
  have V: "unat vp < 4294967296" using unsigned_less [of vp, where 'a = nat] by simp
  have ua: "unat (vp + a * 0x80) = (unat vp + unat a * 128) mod 4294967296"
    using A by (simp add: unat_word_ariths)
  have uh: "unat (vp + h * 0x80) = (unat vp + unat h * 128) mod 4294967296"
    using H by (simp add: unat_word_ariths)
  have ma: "(unat vp + unat a * 128) mod 4294967296 =
        (if unat vp + unat a * 128 < 4294967296 then unat vp + unat a * 128
         else unat vp + unat a * 128 - 4294967296)"
    using A V by (intro mod_2n) simp
  have mh: "(unat vp + unat h * 128) mod 4294967296 =
        (if unat vp + unat h * 128 < 4294967296 then unat vp + unat h * 128
         else unat vp + unat h * 128 - 4294967296)"
    using H V by (intro mod_2n) simp
  consider "unat a < unat h" | "unat h < unat a" using ne by linarith
  then show ?thesis
    unfolding ua uh ma mh using A H V by cases (simp_all split: if_splits, arith+)
qed

lemma set_and_mask: "(((x::32 word) AND NOT m) OR (y AND m)) AND m = y AND m"
  by (rule bit_eqI) (auto simp: bit_simps)

lemma GET_MASK_set: "GET_MASK (((x::32 word) AND NOT m) OR (y AND m)) m = GET_MASK y m"
  by (simp only: GET_MASK_def set_and_mask)

lemma voice_get_mask_alt:
  "voice_get_mask d h off m =
     (if \<not> h < 0xFFFF then Inl Assert_voice_handle
      else Inr (GET_MASK (ldl_le_phys (mem d)
                  (ucast (regs d NV_PAPU_VPVADDR + h * NV_PAVS_SIZE) + off)) m))"
  by (simp only: voice_get_mask_def GET_MASK_def Let_def)

lemma voice_get_set_same:
  assumes "voice_set_mask d h off m v = Inr d'"
  shows "voice_get_mask d' h off m = Inr (GET_MASK (push_bit (ctz32 m) v) m)"
proof -
  from assms have h: "h < 0xFFFF"
    and d': "d' = d\<lparr>mem := stl_le_phys (mem d)
               (ucast (regs d NV_PAPU_VPVADDR + h * NV_PAVS_SIZE) + off)
               (ldl_le_phys (mem d) (ucast (regs d NV_PAPU_VPVADDR + h * NV_PAVS_SIZE) + off)
                  AND NOT m OR (push_bit (ctz32 m) v AND m))\<rparr>"
    by (auto simp: voice_set_mask_def Let_def split: if_splits)
  show ?thesis
    unfolding voice_get_mask_alt using h
    by (simp add: d' ldl_stl_same GET_MASK_set)
qed

lemma voice_get_set_other:
  assumes s: "voice_set_mask d h off m v = Inr d'"
    and o: "off = 0x54 \<or> off = 0x7C" "off' = 0x54 \<or> off' = 0x7C"
    and ne: "h \<noteq> h' \<or> off \<noteq> off'"
  shows "voice_get_mask d' h' off' m' = voice_get_mask d h' off' m'"
proof (cases "h' < 0xFFFF")
  case False
  then show ?thesis using s
    by (auto simp: voice_set_mask_def voice_get_mask_def Let_def split: if_splits)
next
  case h': True
  from s have h: "h < 0xFFFF"
    by (auto simp: voice_set_mask_def split: if_splits)
  let ?x = "regs d NV_PAPU_VPVADDR + h * 0x80"
  let ?y = "regs d NV_PAPU_VPVADDR + h' * 0x80"
  have offs: "off < 0x80" "off' < 0x80" "unat off = 84 \<or> unat off = 124"
    "unat off' = 84 \<or> unat off' = 124"
    using o by auto
  have ux: "unat ((ucast ?x :: 64 word) + off) = unat ?x + unat off"
    and uy: "unat ((ucast ?y :: 64 word) + off') = unat ?y + unat off'"
    using offs by (simp_all add: unat_voice_field)
  have bx: "unat ?x < 4294967296" and "unat ?y < 4294967296"
    using unsigned_less [of ?x, where 'a = nat] unsigned_less [of ?y, where 'a = nat] by simp_all
  have sep: "unat ?x + unat off + 4 \<le> unat ?y + unat off'
             \<or> unat ?y + unat off' + 4 \<le> unat ?x + unat off"
  proof (cases "h = h'")
    case True
    with ne have "off \<noteq> off'" by simp
    with o True show ?thesis by auto
  next
    case False
    from voice_addr_sep [OF h h' False, of "regs d NV_PAPU_VPVADDR"] offs(3,4)
    show ?thesis by auto
  qed
  have "ldl_le_phys (stl_le_phys (mem d) (ucast ?x + off) w) (ucast ?y + off')
          = ldl_le_phys (mem d) (ucast ?y + off')" for w
    using sep bx \<open>unat ?y < 4294967296\<close> offs(3,4)
    by (intro ldl_stl_disj; simp only: ux uy; auto)
  then show ?thesis using s h h'
    by (auto simp: voice_set_mask_def voice_get_mask_def Let_def NV_PAVS_SIZE_def
        split: if_splits)
qed


lemma voice_set_mask_ok:
  assumes "h < 0xFFFF"
  obtains d' where "voice_set_mask d h off m v = Inr d'" "regs d' = regs d"
  using assms by (simp add: voice_set_mask_def Let_def)

lemma voice_get_mask_regs_cong:
  assumes "mem d' = mem d" "regs d' NV_PAPU_VPVADDR = regs d NV_PAPU_VPVADDR"
  shows "voice_get_mask d' h off m = voice_get_mask d h off m"
  using assms by (simp add: voice_get_mask_def)

lemma handle_and_mask: "(h::32 word) < 0xFFFF \<Longrightarrow> h AND 0xFFFF = h"
proof -
  assume "h < 0xFFFF"
  then have "h < 0x10000" by (simp add: word_less_nat_alt)
  with less_mask_eq [of h 16] show ?thesis by (simp add: mask_eq_exp_minus_1)
qed

lemma GET_MASK_link: "GET_MASK (push_bit (ctz32 0xFFFF) v) 0xFFFF = v AND 0xFFFF"
  by (simp add: GET_MASK_def ctz32_vals)

lemma GET_MASK_active: "GET_MASK (2 ^ ctz32 0x200000) 0x200000 = 1"
  by (simp add: GET_MASK_def ctz32_vals)

lemma voice_list_top_neq: "voice_list_top l \<noteq> NV_PAPU_VPVADDR"
  "NV_PAPU_VPVADDR \<noteq> voice_list_top l"
  "voice_list_top l \<noteq> NV_PAPU_FEDECMETH" "voice_list_top l \<noteq> NV_PAPU_FEDECPARAM"
  by (simp_all add: voice_list_top_def reg_defs)

lemma voice_on_top_insert:
  assumes h: "h < 0xFFFF"
    and lst: "GET_MASK (regs d NV_PAPU_FEAV) NV_PAPU_FEAV_LST \<noteq> 0"
  shows "case fe_method d NV1BA0_PIO_VOICE_ON h of
           Inl e \<Rightarrow> False
         | Inr d' \<Rightarrow>
             voice_get_mask d' h NV_PAVS_VOICE_TAR_PITCH_LINK
                 NV_PAVS_VOICE_TAR_PITCH_LINK_NEXT_VOICE_HANDLE
               = Inr (regs d (voice_list_top (GET_MASK (regs d NV_PAPU_FEAV) NV_PAPU_FEAV_LST - 1))
                      AND 0xFFFF)
             \<and> regs d' (voice_list_top (GET_MASK (regs d NV_PAPU_FEAV) NV_PAPU_FEAV_LST - 1)) = h
             \<and> voice_get_mask d' h NV_PAVS_VOICE_PAR_STATE NV_PAVS_VOICE_PAR_STATE_ACTIVE_VOICE
                 = Inr 1"
proof -
  let ?top = "voice_list_top (GET_MASK (regs d NV_PAPU_FEAV) NV_PAPU_FEAV_LST - 1)"
  let ?d = "d\<lparr>regs := (regs d)(NV_PAPU_FEDECMETH := NV1BA0_PIO_VOICE_ON,
                                  NV_PAPU_FEDECPARAM := h)\<rparr>"
  obtain d1 where d1: "voice_set_mask ?d h NV_PAVS_VOICE_TAR_PITCH_LINK
        NV_PAVS_VOICE_TAR_PITCH_LINK_NEXT_VOICE_HANDLE (regs d ?top) = Inr d1"
    and r1: "regs d1 = regs ?d"
    using voice_set_mask_ok [OF h] by blast
  let ?d2 = "d1\<lparr>regs := (regs d1)(?top := h)\<rparr>"
  obtain d3 where d3: "voice_set_mask ?d2 h NV_PAVS_VOICE_PAR_STATE
        NV_PAVS_VOICE_PAR_STATE_ACTIVE_VOICE 1 = Inr d3"
    and r3: "regs d3 = regs ?d2"
    using voice_set_mask_ok [OF h] by blast
  have fe: "fe_method d NV1BA0_PIO_VOICE_ON h = Inr d3"
    using lst d1 d3 h
    by (simp add: fe_method_voice_on Let_def handle_and_mask NV1BA0_PIO_VOICE_ON_HANDLE_def
        NV1BA0_PIO_SET_ANTECEDENT_VOICE_LIST_INHERIT_def)
  have "voice_get_mask d3 h NV_PAVS_VOICE_TAR_PITCH_LINK
          NV_PAVS_VOICE_TAR_PITCH_LINK_NEXT_VOICE_HANDLE
        = voice_get_mask ?d2 h NV_PAVS_VOICE_TAR_PITCH_LINK
          NV_PAVS_VOICE_TAR_PITCH_LINK_NEXT_VOICE_HANDLE"
    by (rule voice_get_set_other [OF d3]) (simp_all add: reg_defs)
  also have "\<dots> = voice_get_mask d1 h NV_PAVS_VOICE_TAR_PITCH_LINK
          NV_PAVS_VOICE_TAR_PITCH_LINK_NEXT_VOICE_HANDLE"
    by (rule voice_get_mask_regs_cong) (simp_all add: voice_list_top_neq)
  also have "\<dots> = Inr (regs d ?top AND 0xFFFF)"
    using voice_get_set_same [OF d1]
    by (simp add: NV_PAVS_VOICE_TAR_PITCH_LINK_NEXT_VOICE_HANDLE_def GET_MASK_link)
  finally have link: "voice_get_mask d3 h NV_PAVS_VOICE_TAR_PITCH_LINK
          NV_PAVS_VOICE_TAR_PITCH_LINK_NEXT_VOICE_HANDLE = Inr (regs d ?top AND 0xFFFF)" .
  have act: "voice_get_mask d3 h NV_PAVS_VOICE_PAR_STATE NV_PAVS_VOICE_PAR_STATE_ACTIVE_VOICE
               = Inr 1"
    using voice_get_set_same [OF d3]
    by (simp add: NV_PAVS_VOICE_PAR_STATE_ACTIVE_VOICE_def GET_MASK_active)
  have top: "regs d3 ?top = h" by (simp add: r3)
  show ?thesis
    unfolding fe using link act top by simp
qed


lemma antecedent_less:
  "GET_MASK x NV_PAPU_FEAV_VALUE \<noteq> 0xFFFF \<Longrightarrow> GET_MASK x NV_PAPU_FEAV_VALUE < 0xFFFF"
proof -
  have "x AND 0xFFFF \<le> 0xFFFF" by (rule word_and_le1)
  moreover assume "GET_MASK x NV_PAPU_FEAV_VALUE \<noteq> 0xFFFF"
  ultimately show ?thesis
    by (simp add: GET_MASK_def NV_PAPU_FEAV_VALUE_def ctz32_vals)
qed

lemma and_mask_idem: "((x::32 word) AND 0xFFFF) AND 0xFFFF = x AND 0xFFFF"
  by (simp add: and.assoc)

lemma voice_on_inherit_run:
  assumes h: "h < 0xFFFF"
    and lst: "GET_MASK (regs d NV_PAPU_FEAV) NV_PAPU_FEAV_LST = 0"
    and a: "GET_MASK (regs d NV_PAPU_FEAV) NV_PAPU_FEAV_VALUE \<noteq> 0xFFFF"
  obtains nh d1 d2 d3 where
    "voice_get_mask d (GET_MASK (regs d NV_PAPU_FEAV) NV_PAPU_FEAV_VALUE)
       NV_PAVS_VOICE_TAR_PITCH_LINK NV_PAVS_VOICE_TAR_PITCH_LINK_NEXT_VOICE_HANDLE = Inr nh"
    "nh AND 0xFFFF = nh"
    "voice_set_mask (d\<lparr>regs := (regs d)(NV_PAPU_FEDECMETH := NV1BA0_PIO_VOICE_ON,
                                  NV_PAPU_FEDECPARAM := h)\<rparr>) h NV_PAVS_VOICE_TAR_PITCH_LINK
       NV_PAVS_VOICE_TAR_PITCH_LINK_NEXT_VOICE_HANDLE nh = Inr d1"
    "voice_set_mask d1 (GET_MASK (regs d NV_PAPU_FEAV) NV_PAPU_FEAV_VALUE)
       NV_PAVS_VOICE_TAR_PITCH_LINK NV_PAVS_VOICE_TAR_PITCH_LINK_NEXT_VOICE_HANDLE h = Inr d2"
    "voice_set_mask d2 h NV_PAVS_VOICE_PAR_STATE NV_PAVS_VOICE_PAR_STATE_ACTIVE_VOICE 1 = Inr d3"
    "fe_method d NV1BA0_PIO_VOICE_ON h = Inr d3"
    "regs d3 = (regs d)(NV_PAPU_FEDECMETH := NV1BA0_PIO_VOICE_ON, NV_PAPU_FEDECPARAM := h)"
proof -
  let ?a = "GET_MASK (regs d NV_PAPU_FEAV) NV_PAPU_FEAV_VALUE"
  let ?d = "d\<lparr>regs := (regs d)(NV_PAPU_FEDECMETH := NV1BA0_PIO_VOICE_ON,
                                  NV_PAPU_FEDECPARAM := h)\<rparr>"
  have al: "?a < 0xFFFF" using a by (rule antecedent_less)
  define nh where "nh = GET_MASK (ldl_le_phys (mem d)
      (ucast (regs d NV_PAPU_VPVADDR + ?a * NV_PAVS_SIZE) + NV_PAVS_VOICE_TAR_PITCH_LINK))
      NV_PAVS_VOICE_TAR_PITCH_LINK_NEXT_VOICE_HANDLE"
  have g: "voice_get_mask d ?a NV_PAVS_VOICE_TAR_PITCH_LINK
             NV_PAVS_VOICE_TAR_PITCH_LINK_NEXT_VOICE_HANDLE = Inr nh"
    using al by (simp add: voice_get_mask_alt nh_def)
  have g': "voice_get_mask ?d ?a NV_PAVS_VOICE_TAR_PITCH_LINK
             NV_PAVS_VOICE_TAR_PITCH_LINK_NEXT_VOICE_HANDLE = Inr nh"
    unfolding g [symmetric] by (rule voice_get_mask_regs_cong) (simp_all add: reg_defs)
  have nhm: "nh AND 0xFFFF = nh"
    by (simp add: nh_def GET_MASK_def NV_PAVS_VOICE_TAR_PITCH_LINK_NEXT_VOICE_HANDLE_def
        ctz32_vals and_mask_idem)
  obtain d1 where d1: "voice_set_mask ?d h NV_PAVS_VOICE_TAR_PITCH_LINK
        NV_PAVS_VOICE_TAR_PITCH_LINK_NEXT_VOICE_HANDLE nh = Inr d1" and r1: "regs d1 = regs ?d"
    using voice_set_mask_ok [OF h] by blast
  obtain d2 where d2: "voice_set_mask d1 ?a NV_PAVS_VOICE_TAR_PITCH_LINK
        NV_PAVS_VOICE_TAR_PITCH_LINK_NEXT_VOICE_HANDLE h = Inr d2" and r2: "regs d2 = regs d1"
    using voice_set_mask_ok [OF al] by blast
  obtain d3 where d3: "voice_set_mask d2 h NV_PAVS_VOICE_PAR_STATE
        NV_PAVS_VOICE_PAR_STATE_ACTIVE_VOICE 1 = Inr d3" and r3: "regs d3 = regs d2"
    using voice_set_mask_ok [OF h] by blast
  have fe: "fe_method d NV1BA0_PIO_VOICE_ON h = Inr d3"
    using lst a g' d1 d2 d3 h
    by (simp add: fe_method_voice_on Let_def handle_and_mask NV1BA0_PIO_VOICE_ON_HANDLE_def
        NV1BA0_PIO_SET_ANTECEDENT_VOICE_LIST_INHERIT_def)
  show thesis
    by (rule that [OF g nhm d1 d2 d3 fe]) (simp add: r3 r2 r1)
qed


lemma voice_on_inherit_insert:
  assumes h: "h < 0xFFFF"
    and lst: "GET_MASK (regs d NV_PAPU_FEAV) NV_PAPU_FEAV_LST = 0"
    and a: "GET_MASK (regs d NV_PAPU_FEAV) NV_PAPU_FEAV_VALUE \<noteq> 0xFFFF"
    and ne: "GET_MASK (regs d NV_PAPU_FEAV) NV_PAPU_FEAV_VALUE \<noteq> h"
  shows "case fe_method d NV1BA0_PIO_VOICE_ON h of
           Inl e \<Rightarrow> False
         | Inr d' \<Rightarrow>
             voice_get_mask d' (GET_MASK (regs d NV_PAPU_FEAV) NV_PAPU_FEAV_VALUE)
                 NV_PAVS_VOICE_TAR_PITCH_LINK NV_PAVS_VOICE_TAR_PITCH_LINK_NEXT_VOICE_HANDLE
               = Inr h
             \<and> voice_get_mask d' h NV_PAVS_VOICE_TAR_PITCH_LINK
                 NV_PAVS_VOICE_TAR_PITCH_LINK_NEXT_VOICE_HANDLE
               = voice_get_mask d (GET_MASK (regs d NV_PAPU_FEAV) NV_PAPU_FEAV_VALUE)
                   NV_PAVS_VOICE_TAR_PITCH_LINK NV_PAVS_VOICE_TAR_PITCH_LINK_NEXT_VOICE_HANDLE
             \<and> voice_get_mask d' h NV_PAVS_VOICE_PAR_STATE NV_PAVS_VOICE_PAR_STATE_ACTIVE_VOICE
                 = Inr 1
             \<and> regs d' NV_PAPU_TVL2D = regs d NV_PAPU_TVL2D
             \<and> regs d' NV_PAPU_TVL3D = regs d NV_PAPU_TVL3D
             \<and> regs d' NV_PAPU_TVLMP = regs d NV_PAPU_TVLMP"
proof -
  let ?a = "GET_MASK (regs d NV_PAPU_FEAV) NV_PAPU_FEAV_VALUE"
  let ?L = NV_PAVS_VOICE_TAR_PITCH_LINK
  let ?M = NV_PAVS_VOICE_TAR_PITCH_LINK_NEXT_VOICE_HANDLE
  from voice_on_inherit_run [OF h lst a]
  obtain nh d1 d2 d3 where
    g: "voice_get_mask d ?a ?L ?M = Inr nh" and nhm: "nh AND 0xFFFF = nh"
    and d1: "voice_set_mask (d\<lparr>regs := (regs d)(NV_PAPU_FEDECMETH := NV1BA0_PIO_VOICE_ON,
                NV_PAPU_FEDECPARAM := h)\<rparr>) h ?L ?M nh = Inr d1"
    and d2: "voice_set_mask d1 ?a ?L ?M h = Inr d2"
    and d3: "voice_set_mask d2 h NV_PAVS_VOICE_PAR_STATE NV_PAVS_VOICE_PAR_STATE_ACTIVE_VOICE 1
               = Inr d3"
    and fe: "fe_method d NV1BA0_PIO_VOICE_ON h = Inr d3"
    and r3: "regs d3 = (regs d)(NV_PAPU_FEDECMETH := NV1BA0_PIO_VOICE_ON, NV_PAPU_FEDECPARAM := h)"
    by blast
  have "voice_get_mask d3 ?a ?L ?M = voice_get_mask d2 ?a ?L ?M"
    by (rule voice_get_set_other [OF d3]) (use ne in \<open>simp_all add: reg_defs\<close>)
  also have "\<dots> = Inr h"
    using voice_get_set_same [OF d2] h
    by (simp add: NV_PAVS_VOICE_TAR_PITCH_LINK_NEXT_VOICE_HANDLE_def GET_MASK_link handle_and_mask)
  finally have la: "voice_get_mask d3 ?a ?L ?M = Inr h" .
  have "voice_get_mask d3 h ?L ?M = voice_get_mask d2 h ?L ?M"
    by (rule voice_get_set_other [OF d3]) (simp_all add: reg_defs)
  also have "\<dots> = voice_get_mask d1 h ?L ?M"
    by (rule voice_get_set_other [OF d2]) (use ne in \<open>simp_all add: reg_defs\<close>)
  also have "\<dots> = Inr nh"
    using voice_get_set_same [OF d1] nhm
    by (simp add: NV_PAVS_VOICE_TAR_PITCH_LINK_NEXT_VOICE_HANDLE_def GET_MASK_link)
  finally have lh: "voice_get_mask d3 h ?L ?M = voice_get_mask d ?a ?L ?M" using g by simp
  have act: "voice_get_mask d3 h NV_PAVS_VOICE_PAR_STATE NV_PAVS_VOICE_PAR_STATE_ACTIVE_VOICE
               = Inr 1"
    using voice_get_set_same [OF d3]
    by (simp add: NV_PAVS_VOICE_PAR_STATE_ACTIVE_VOICE_def GET_MASK_active)
  have tops: "regs d3 NV_PAPU_TVL2D = regs d NV_PAPU_TVL2D"
    "regs d3 NV_PAPU_TVL3D = regs d NV_PAPU_TVL3D" "regs d3 NV_PAPU_TVLMP = regs d NV_PAPU_TVLMP"
    by (simp_all add: r3 reg_defs)
  show ?thesis
    unfolding fe using la lh act tops by simp
qed

lemma voice_on_inherit_self:
  assumes h: "h < 0xFFFF"
    and lst: "GET_MASK (regs d NV_PAPU_FEAV) NV_PAPU_FEAV_LST = 0"
    and a: "GET_MASK (regs d NV_PAPU_FEAV) NV_PAPU_FEAV_VALUE = h"
  shows "case fe_method d NV1BA0_PIO_VOICE_ON h of
           Inl e \<Rightarrow> False
         | Inr d' \<Rightarrow> voice_get_mask d' h NV_PAVS_VOICE_TAR_PITCH_LINK
                        NV_PAVS_VOICE_TAR_PITCH_LINK_NEXT_VOICE_HANDLE = Inr h"
proof -
  let ?L = NV_PAVS_VOICE_TAR_PITCH_LINK
  let ?M = NV_PAVS_VOICE_TAR_PITCH_LINK_NEXT_VOICE_HANDLE
  have a': "GET_MASK (regs d NV_PAPU_FEAV) NV_PAPU_FEAV_VALUE \<noteq> 0xFFFF"
    using a h by auto
  from voice_on_inherit_run [OF h lst a']
  obtain nh d1 d2 d3 where
    d2: "voice_set_mask d1 (GET_MASK (regs d NV_PAPU_FEAV) NV_PAPU_FEAV_VALUE) ?L ?M h = Inr d2"
    and d3: "voice_set_mask d2 h NV_PAVS_VOICE_PAR_STATE NV_PAVS_VOICE_PAR_STATE_ACTIVE_VOICE 1
               = Inr d3"
    and fe: "fe_method d NV1BA0_PIO_VOICE_ON h = Inr d3"
    by blast
  have "voice_get_mask d3 h ?L ?M = voice_get_mask d2 h ?L ?M"
    by (rule voice_get_set_other [OF d3]) (simp_all add: reg_defs)
  also have "\<dots> = Inr h"
    using voice_get_set_same [OF d2] h
    by (simp add: a NV_PAVS_VOICE_TAR_PITCH_LINK_NEXT_VOICE_HANDLE_def GET_MASK_link
        handle_and_mask)
  finally show ?thesis unfolding fe by simp
qed

section \<open>Voice list insertion\<close>

text \<open>
  C3 (amended). For a handle \<open>h < 0xFFFF\<close> and a list selector other than inherit in
  \<open>FEAV\<close>, \<open>fe_method(VOICE_ON, h)\<close> returns, and afterwards the next-link field of voice
  \<open>h\<close> holds the low 16 bits of the previous \<open>TOP[list]\<close> (the previous \<open>TOP[list]\<close> itself
  when that fits 16 bits, as the empty-list marker \<open>0xFFFF\<close> does), \<open>TOP[list]\<close> is \<open>h\<close>
  and the Active bit of voice \<open>h\<close> is set.
\<close>

theorem C3_voice_on_top_insert:
  assumes "h < 0xFFFF" and "feav_list d \<noteq> NV1BA0_PIO_SET_ANTECEDENT_VOICE_LIST_INHERIT"
  shows "case fe_method d NV1BA0_PIO_VOICE_ON h of
           Inl e \<Rightarrow> False
         | Inr d' \<Rightarrow>
             next_link d' h = Inr (regs d (top_reg d) AND 0xFFFF)
             \<and> (regs d (top_reg d) \<le> 0xFFFF \<longrightarrow> next_link d' h = Inr (regs d (top_reg d)))
             \<and> regs d' (top_reg d) = h
             \<and> voice_active d' h = Inr 1"
proof -
  have m: "x \<le> 0xFFFF \<Longrightarrow> x AND 0xFFFF = x" for x :: "32 word"
    using less_mask_eq [of x 16] by (simp add: mask_eq_exp_minus_1 word_le_nat_alt word_less_nat_alt)
  show ?thesis
    using voice_on_top_insert [of h d] assms m [of "regs d (top_reg d)"]
    by (auto simp: next_link_def voice_active_def feav_list_def top_reg_def
        NV1BA0_PIO_SET_ANTECEDENT_VOICE_LIST_INHERIT_def split: sum.splits)
qed

text \<open>
  The selector and the antecedent of the example states.
\<close>

lemma feav_list_vals:
  "feav_list empty_3d_state = 2" "feav_list wide_top_state = 1" "feav_list inherit_state = 0"
  "feav_antecedent inherit_state = 5"
  by (simp_all add: feav_list_def feav_antecedent_def empty_3d_state_def wide_top_state_def
      inherit_state_def apu_reset_state_def GET_MASK_def reg_defs ctz32_vals)

text \<open>
  C3 on the empty 3D list (scenario S2): \<open>TOP[3D] = 0xFFFF\<close>, selector 2, \<open>VOICE_ON(5)\<close>.
  Afterwards \<open>TOP[3D] = 5\<close>, the next link of voice 5 is \<open>0xFFFF\<close> and voice 5 is active.
\<close>

theorem C3_voice_on_top_insert_witness:
  "(5 :: 32 word) < 0xFFFF
   \<and> feav_list empty_3d_state = 2
   \<and> regs empty_3d_state NV_PAPU_TVL3D = 0xFFFF
   \<and> (case fe_method empty_3d_state NV1BA0_PIO_VOICE_ON 5 of
         Inl e \<Rightarrow> False
       | Inr d' \<Rightarrow> next_link d' 5 = Inr 0xFFFF \<and> regs d' NV_PAPU_TVL3D = 5
                   \<and> voice_active d' 5 = Inr 1)"
proof -
  have t: "top_reg empty_3d_state = NV_PAPU_TVL3D"
    by (simp add: top_reg_def feav_list_vals voice_list_top_def)
  have r: "regs empty_3d_state NV_PAPU_TVL3D = 0xFFFF"
    by (simp add: empty_3d_state_def apu_reset_state_def)
  show ?thesis
    using C3_voice_on_top_insert [of 5 empty_3d_state]
    by (simp add: feav_list_vals t r NV1BA0_PIO_SET_ANTECEDENT_VOICE_LIST_INHERIT_def
        split: sum.splits)
qed

text \<open>
  C3 as stated fails when \<open>TOP[list]\<close> does not fit 16 bits: with \<open>TOP[2D] = 0x10000\<close>
  (a value the guest can store in the register), after \<open>VOICE_ON(5)\<close> the next link of
  voice 5 is 0, not the previous \<open>TOP[2D]\<close>.
\<close>

theorem C3_wide_top_counterexample:
  "(5 :: 32 word) < 0xFFFF
   \<and> feav_list wide_top_state = 1
   \<and> regs wide_top_state NV_PAPU_TVL2D = 0x10000
   \<and> (case fe_method wide_top_state NV1BA0_PIO_VOICE_ON 5 of
         Inl e \<Rightarrow> False
       | Inr d' \<Rightarrow> next_link d' 5 = Inr 0
                   \<and> next_link d' 5 \<noteq> Inr (regs wide_top_state NV_PAPU_TVL2D))"
proof -
  have l: "GET_MASK (regs wide_top_state NV_PAPU_FEAV) NV_PAPU_FEAV_LST = 1"
    using feav_list_vals(2) by (simp add: feav_list_def)
  have r: "regs wide_top_state NV_PAPU_TVL2D = 0x10000"
    by (simp add: wide_top_state_def apu_reset_state_def reg_defs)
  show ?thesis
    using voice_on_top_insert [of 5 wide_top_state]
    by (simp add: feav_list_vals l r voice_list_top_def next_link_def split: sum.splits)
qed

text \<open>
  C4 (amended). For a handle \<open>h < 0xFFFF\<close>, the selector inherit and an antecedent \<open>a\<close> in
  \<open>FEAV\<close> that is neither \<open>0xFFFF\<close> nor \<open>h\<close> itself, \<open>fe_method(VOICE_ON, h)\<close> returns, and
  afterwards the next link of \<open>a\<close> is \<open>h\<close>, the next link of \<open>h\<close> is the next link \<open>a\<close> had
  before, the Active bit of \<open>h\<close> is set and the \<open>TOP\<close> register of every list is unchanged.
\<close>

theorem C4_voice_on_inherit_insert:
  assumes "h < 0xFFFF" and "feav_list d = NV1BA0_PIO_SET_ANTECEDENT_VOICE_LIST_INHERIT"
    and "feav_antecedent d \<noteq> 0xFFFF" and "feav_antecedent d \<noteq> h"
  shows "case fe_method d NV1BA0_PIO_VOICE_ON h of
           Inl e \<Rightarrow> False
         | Inr d' \<Rightarrow>
             next_link d' (feav_antecedent d) = Inr h
             \<and> next_link d' h = next_link d (feav_antecedent d)
             \<and> voice_active d' h = Inr 1
             \<and> regs d' NV_PAPU_TVL2D = regs d NV_PAPU_TVL2D
             \<and> regs d' NV_PAPU_TVL3D = regs d NV_PAPU_TVL3D
             \<and> regs d' NV_PAPU_TVLMP = regs d NV_PAPU_TVLMP"
  using voice_on_inherit_insert [of h d] assms
  unfolding next_link_def voice_active_def feav_list_def feav_antecedent_def
    NV1BA0_PIO_SET_ANTECEDENT_VOICE_LIST_INHERIT_def
  by simp

text \<open>
  C4 at a concrete input (scenario S3): antecedent 5, \<open>VOICE_ON(9)\<close>.
\<close>

theorem C4_voice_on_inherit_insert_witness:
  "(9 :: 32 word) < 0xFFFF
   \<and> feav_list inherit_state = 0
   \<and> feav_antecedent inherit_state = 5
   \<and> (case fe_method inherit_state NV1BA0_PIO_VOICE_ON 9 of
         Inl e \<Rightarrow> False
       | Inr d' \<Rightarrow>
           next_link d' 5 = Inr 9
           \<and> next_link d' 9 = next_link inherit_state 5
           \<and> voice_active d' 9 = Inr 1
           \<and> regs d' NV_PAPU_TVL2D = regs inherit_state NV_PAPU_TVL2D
           \<and> regs d' NV_PAPU_TVL3D = regs inherit_state NV_PAPU_TVL3D
           \<and> regs d' NV_PAPU_TVLMP = regs inherit_state NV_PAPU_TVLMP)"
  using C4_voice_on_inherit_insert [of 9 inherit_state]
  by (simp add: feav_list_vals NV1BA0_PIO_SET_ANTECEDENT_VOICE_LIST_INHERIT_def
      split: sum.splits)

text \<open>
  In the example state voice 5 has the next link 0.
\<close>

lemma next_link_inherit_state: "next_link inherit_state 5 = Inr 0"
  by (simp add: next_link_def voice_get_mask_def inherit_state_def apu_reset_state_def
      ldl_le_phys_def Let_def)

text \<open>
  C4 as stated fails when the antecedent is the inserted voice itself: with antecedent 5,
  \<open>VOICE_ON(5)\<close> leaves voice 5 linked to itself, and its next link (5) is not the next link
  the antecedent had before the insert (0).
\<close>

theorem C4_self_antecedent_counterexample:
  "(5 :: 32 word) < 0xFFFF
   \<and> feav_list inherit_state = 0
   \<and> feav_antecedent inherit_state = 5
   \<and> next_link inherit_state 5 = Inr 0
   \<and> (case fe_method inherit_state NV1BA0_PIO_VOICE_ON 5 of
         Inl e \<Rightarrow> False
       | Inr d' \<Rightarrow> next_link d' 5 = Inr 5
                   \<and> next_link d' 5 \<noteq> next_link inherit_state 5)"
proof -
  have l: "GET_MASK (regs inherit_state NV_PAPU_FEAV) NV_PAPU_FEAV_LST = 0"
    "GET_MASK (regs inherit_state NV_PAPU_FEAV) NV_PAPU_FEAV_VALUE = 5"
    using feav_list_vals(3,4) by (simp_all add: feav_list_def feav_antecedent_def)
  show ?thesis
    using voice_on_inherit_self [of 5 inherit_state]
    by (simp add: feav_list_vals l next_link_inherit_state [unfolded next_link_def]
        next_link_def split: sum.splits)
qed

section \<open>The VP command window\<close>

lemma voice_set_mask_frame:
  "voice_set_mask d h off m v = Inr d' \<Longrightarrow> regs d' = regs d \<and> irq d' = irq d"
  by (auto simp: voice_set_mask_def Let_def split: if_splits)

lemma voice_set_mask_error:
  "voice_set_mask d h off m v = Inl e \<Longrightarrow> e = Assert_voice_handle"
  by (auto simp: voice_set_mask_def Let_def split: if_splits)

lemma voice_get_mask_error:
  "voice_get_mask d h off m = Inl e \<Longrightarrow> e = Assert_voice_handle"
  by (auto simp: voice_get_mask_def Let_def split: if_splits)

lemma vp_inert_set:
  assumes "regs d1 NV_PAPU_FECTL = regs d NV_PAPU_FECTL"
    "regs d1 NV_PAPU_ISTS = regs d NV_PAPU_ISTS" "irq d1 = irq d"
  shows "vp_inert d (voice_set_mask d1 h off m v)"
proof (cases "voice_set_mask d1 h off m v")
  case (Inl e)
  then show ?thesis using voice_set_mask_error [OF Inl] by (simp add: vp_inert_def)
next
  case (Inr d')
  then show ?thesis using voice_set_mask_frame [OF Inr] assms by (simp add: vp_inert_def)
qed

lemma fe_method_voice_off_inert: "vp_inert d (fe_method d NV1BA0_PIO_VOICE_OFF a)"
  unfolding fe_method_voice_off by (rule vp_inert_set) (simp_all add: reg_defs)

lemma fe_method_voice_pause_inert: "vp_inert d (fe_method d NV1BA0_PIO_VOICE_PAUSE a)"
  unfolding fe_method_voice_pause by (rule vp_inert_set) (simp_all add: reg_defs)

lemma fe_method_set_antecedent_inert: "vp_inert d (fe_method d NV1BA0_PIO_SET_ANTECEDENT_VOICE a)"
  unfolding fe_method_set_antecedent by (simp add: vp_inert_def reg_defs)

lemma fe_method_set_current_inert: "vp_inert d (fe_method d NV1BA0_PIO_SET_CURRENT_VOICE a)"
  unfolding fe_method_set_current by (simp add: vp_inert_def reg_defs)


lemma vp_inert_bind:
  assumes "vp_inert d r"
    and "\<And>d1. r = Inr d1 \<Longrightarrow> vp_inert d (Inr d1) \<Longrightarrow> vp_inert d (f d1)"
  shows "vp_inert d (case r of Inl e \<Rightarrow> Inl e | Inr d1 \<Rightarrow> f d1)"
  using assms by (cases r) (simp_all add: vp_inert_def)

lemma vp_inert_get:
  assumes "\<And>n. vp_inert d (f n)"
  shows "vp_inert d (case voice_get_mask d1 h off m of Inl e \<Rightarrow> Inl e | Inr n \<Rightarrow> f n)"
proof (cases "voice_get_mask d1 h off m")
  case (Inl e)
  then show ?thesis using voice_get_mask_error [OF Inl] by (simp add: vp_inert_def)
next
  case (Inr n)
  then show ?thesis using assms by simp
qed

lemma vp_inert_set':
  "vp_inert d (Inr d1) \<Longrightarrow> vp_inert d (voice_set_mask d1 h off m v)"
  by (rule vp_inert_set) (simp_all add: vp_inert_def)

lemma vp_inert_top:
  "vp_inert d (Inr d1) \<Longrightarrow> vp_inert d (Inr (d1\<lparr>regs := (regs d1)(voice_list_top l := h)\<rparr>))"
  by (simp add: vp_inert_def voice_list_top_def reg_defs)

lemma fe_method_voice_on_inert: "vp_inert d (fe_method d NV1BA0_PIO_VOICE_ON a)"
proof -
  let ?d = "d\<lparr>regs := (regs d)(NV_PAPU_FEDECMETH := NV1BA0_PIO_VOICE_ON,
                                  NV_PAPU_FEDECPARAM := a)\<rparr>"
  have d0: "vp_inert d (Inr ?d)" by (simp add: vp_inert_def reg_defs)
  show ?thesis
    unfolding fe_method_voice_on Let_def
  proof (rule vp_inert_bind, goal_cases)
    case 1
    show ?case
    proof (cases "GET_MASK (regs d NV_PAPU_FEAV) NV_PAPU_FEAV_LST
                    \<noteq> NV1BA0_PIO_SET_ANTECEDENT_VOICE_LIST_INHERIT")
      case True
      show ?thesis
        unfolding if_P [OF True]
        by (rule vp_inert_bind [OF vp_inert_set' [OF d0]]) (rule vp_inert_top)
    next
      case False
      show ?thesis
      proof (cases "GET_MASK (regs d NV_PAPU_FEAV) NV_PAPU_FEAV_VALUE = 0xFFFF")
        case True
        then show ?thesis using False by (simp add: vp_inert_def)
      next
        case F: False
        show ?thesis
          unfolding if_not_P [OF False] if_not_P [OF F]
          by (rule vp_inert_get, rule vp_inert_bind [OF vp_inert_set' [OF d0]])
             (rule vp_inert_set')
      qed
    qed
  next
    case (2 d1)
    then show ?case by (intro vp_inert_set')
  qed
qed


lemma vp_write_cases:
  "vp_write d addr val sz =
     (if addr = 0x120 then fe_method d NV1BA0_PIO_SET_ANTECEDENT_VOICE (ucast val)
      else if addr = 0x124 then fe_method d NV1BA0_PIO_VOICE_ON (ucast val)
      else if addr = 0x128 then fe_method d NV1BA0_PIO_VOICE_OFF (ucast val)
      else if addr = 0x140 then fe_method d NV1BA0_PIO_VOICE_PAUSE (ucast val)
      else if addr = 0x2F8 then fe_method d NV1BA0_PIO_SET_CURRENT_VOICE (ucast val)
      else Inr d)"
  by (simp add: vp_write_def NV1BA0_PIO_SET_ANTECEDENT_VOICE_def NV1BA0_PIO_VOICE_ON_def
      NV1BA0_PIO_VOICE_OFF_def NV1BA0_PIO_VOICE_PAUSE_def NV1BA0_PIO_SET_CURRENT_VOICE_def)

lemma vp_write_inert: "vp_inert d (vp_write d addr val sz)"
  unfolding vp_write_cases
  using fe_method_set_antecedent_inert fe_method_voice_on_inert fe_method_voice_off_inert
    fe_method_voice_pause_inert fe_method_set_current_inert
  by (simp add: vp_inert_def)

text \<open>
  C10. A guest write to the VP window calls \<open>fe_method\<close> at the five offsets 0x120, 0x124,
  0x128, 0x140 and 0x2F8 only, with the offset as the method; at every other offset, and so
  at 0x8000, the code of \<open>SE2FE_IDLE_VOICE\<close>, it returns the state unchanged. No write to the
  VP window ends in the \<open>assert(false)\<close> of the idle-voice branch or of the unknown-method
  branch of \<open>fe_method\<close>, and none takes the idle-voice trap: \<open>FECTL\<close>, \<open>ISTS\<close> and the
  interrupt line are never changed through the window.
\<close>

theorem C10_vp_write_other_offsets_inert:
  "(if addr = 0x120 \<or> addr = 0x124 \<or> addr = 0x128 \<or> addr = 0x140 \<or> addr = 0x2F8
    then vp_write d addr val sz = fe_method d (ucast addr) (ucast val)
    else vp_write d addr val sz = Inr d)
   \<and> vp_write d (ucast SE2FE_IDLE_VOICE) val sz = Inr d
   \<and> vp_write d addr val sz \<noteq> Inl Assert_idle_voice
   \<and> vp_write d addr val sz \<noteq> Inl Assert_unknown_method
   \<and> vp_inert d (vp_write d addr val sz)"
proof (intro conjI)
  show "if addr = 0x120 \<or> addr = 0x124 \<or> addr = 0x128 \<or> addr = 0x140 \<or> addr = 0x2F8
    then vp_write d addr val sz = fe_method d (ucast addr) (ucast val)
    else vp_write d addr val sz = Inr d"
    by (auto simp: vp_write_def NV1BA0_PIO_SET_ANTECEDENT_VOICE_def NV1BA0_PIO_VOICE_ON_def
      NV1BA0_PIO_VOICE_OFF_def NV1BA0_PIO_VOICE_PAUSE_def NV1BA0_PIO_SET_CURRENT_VOICE_def)
  show "vp_write d (ucast SE2FE_IDLE_VOICE) val sz = Inr d"
    by (simp add: vp_write_cases SE2FE_IDLE_VOICE_def)
  show "vp_write d addr val sz \<noteq> Inl Assert_idle_voice"
    using vp_write_inert [of d addr val sz] by (auto simp: vp_inert_def)
  show "vp_write d addr val sz \<noteq> Inl Assert_unknown_method"
    using vp_write_inert [of d addr val sz] by (auto simp: vp_inert_def)
  show "vp_inert d (vp_write d addr val sz)" by (rule vp_write_inert)
qed

text \<open>
  C10 at concrete inputs: a write at 0x8000 is inert both where \<open>fe_method\<close> called with
  \<open>SE2FE_IDLE_VOICE\<close> would trap and where it would fail, and a write at the unknown offset
  0x300 is inert although \<open>fe_method\<close> fails on the method 0x300.
\<close>

theorem C10_vp_write_other_offsets_inert_witness:
  "vp_write idle_trap_state 0x8000 7 4 = Inr idle_trap_state
   \<and> vp_write apu_reset_state 0x8000 7 4 = Inr apu_reset_state
   \<and> fe_method apu_reset_state SE2FE_IDLE_VOICE 7 = Inl Assert_idle_voice
   \<and> vp_write apu_reset_state 0x300 7 4 = Inr apu_reset_state
   \<and> fe_method apu_reset_state 0x300 7 = Inl Assert_unknown_method"
proof -
  have "fe_method apu_reset_state 0x300 7 = Inl Assert_unknown_method"
    by (simp add: fe_method_def reg_defs)
  moreover have "fe_method apu_reset_state SE2FE_IDLE_VOICE 7 = Inl Assert_idle_voice"
    by (simp add: fe_method_idle_voice apu_reset_state_def)
  ultimately show ?thesis
    using C10_vp_write_other_offsets_inert [of "0x8000" idle_trap_state 7 4]
      C10_vp_write_other_offsets_inert [of "0x8000" apu_reset_state 7 4]
      C10_vp_write_other_offsets_inert [of "0x300" apu_reset_state 7 4]
    by simp
qed

section \<open>Reset handshake\<close>

lemma proc_rst_write_append:
  "proc_rst_write dsp oldval val = dsp @ proc_rst_write [] oldval val"
  by (simp add: proc_rst_write_def)

lemma proc_rst_write_calls:
  "proc_rst_write [] oldval val =
     (if \<not> rst_both_set val then [Dsp_reset]
      else if \<not> rst_both_set oldval then [Dsp_bootstrap] else [])"
  by (auto simp: proc_rst_write_def rst_both_set_def)

lemma gp_write_rst:
  "gp_write d NV_PAPU_GPRST val 4 =
     Inr (d\<lparr>gp_dsp := gp_dsp d @ proc_rst_write [] (gp_regs d NV_PAPU_GPRST) (ucast val),
            gp_regs := (gp_regs d)(NV_PAPU_GPRST := ucast val)\<rparr>)"
  by (simp add: gp_write_def Let_def reg_defs proc_rst_write_append [of "gp_dsp d"])

lemma ep_write_rst:
  "ep_write d NV_PAPU_EPRST val 4 =
     Inr (d\<lparr>ep_dsp := ep_dsp d @ proc_rst_write [] (ep_regs d NV_PAPU_EPRST) (ucast val),
            ep_regs := (ep_regs d)(NV_PAPU_EPRST := ucast val)\<rparr>)"
  by (simp add: ep_write_def Let_def reg_defs proc_rst_write_append [of "ep_dsp d"])


lemma rst_both_set_3: "rst_both_set 3" "rst_both_set (ucast (3 :: 64 word))" "\<not> rst_both_set 0"
  by (simp_all add: rst_both_set_def reg_defs)

lemma gp_write_rst_twice:
  assumes "rst_both_set (ucast v1)" "rst_both_set (ucast v2)"
  shows "case gp_write d NV_PAPU_GPRST v1 4 of
           Inl e \<Rightarrow> False
         | Inr d1 \<Rightarrow>
             (case gp_write d1 NV_PAPU_GPRST v2 4 of
                Inl e \<Rightarrow> False
              | Inr d2 \<Rightarrow>
                  gp_dsp d2 = gp_dsp d @ (if rst_both_set (gp_regs d NV_PAPU_GPRST) then []
                                          else [Dsp_bootstrap])
                  \<and> gp_dsp d2 = gp_dsp d1)"
  using assms by (simp add: gp_write_rst proc_rst_write_calls)

text \<open>
  C6 (amended). A write of \<open>new\<close> to the reset register of GP or EP, holding \<open>old\<close>, returns
  with \<open>new\<close> stored and with the calls of \<open>proc_rst_write\<close> added to the log of the
  processor: \<open>reset\<close> is called iff \<open>new\<close> has \<open>GPRST\<close> or \<open>GPDSPRST\<close> cleared, \<open>bootstrap\<close>
  iff \<open>old\<close> had one of them cleared and \<open>new\<close> has both set, and nothing is called iff both
  values have both bits set; there is at most one call. Of two consecutive writes with both
  bits set the second calls nothing, and the pair calls \<open>bootstrap\<close> once when the register
  had a reset bit cleared before the first write and not at all otherwise.
\<close>

theorem C6_reset_handshake:
  "gp_write d NV_PAPU_GPRST val 4 =
     Inr (d\<lparr>gp_dsp := gp_dsp d @ proc_rst_write [] (gp_regs d NV_PAPU_GPRST) (ucast val),
            gp_regs := (gp_regs d)(NV_PAPU_GPRST := ucast val)\<rparr>)
   \<and> ep_write d NV_PAPU_EPRST val 4 =
     Inr (d\<lparr>ep_dsp := ep_dsp d @ proc_rst_write [] (ep_regs d NV_PAPU_EPRST) (ucast val),
            ep_regs := (ep_regs d)(NV_PAPU_EPRST := ucast val)\<rparr>)
   \<and> proc_rst_write dsp oldval new = dsp @ proc_rst_write [] oldval new
   \<and> (Dsp_reset \<in> set (proc_rst_write [] oldval new) \<longleftrightarrow> \<not> rst_both_set new)
   \<and> (Dsp_bootstrap \<in> set (proc_rst_write [] oldval new)
        \<longleftrightarrow> \<not> rst_both_set oldval \<and> rst_both_set new)
   \<and> (proc_rst_write [] oldval new = [] \<longleftrightarrow> rst_both_set oldval \<and> rst_both_set new)
   \<and> length (proc_rst_write [] oldval new) \<le> 1
   \<and> (if rst_both_set (ucast v1) \<and> rst_both_set (ucast v2)
       then (case gp_write d NV_PAPU_GPRST v1 4 of
               Inl e \<Rightarrow> False
             | Inr d1 \<Rightarrow>
                 (case gp_write d1 NV_PAPU_GPRST v2 4 of
                    Inl e \<Rightarrow> False
                  | Inr d2 \<Rightarrow>
                      gp_dsp d2 = gp_dsp d @ (if rst_both_set (gp_regs d NV_PAPU_GPRST) then []
                                              else [Dsp_bootstrap])
                      \<and> gp_dsp d2 = gp_dsp d1))
       else True)"
  using gp_write_rst_twice [of v1 v2 d]
  by (simp add: gp_write_rst ep_write_rst proc_rst_write_append [of dsp] proc_rst_write_calls)

text \<open>
  C6 from the zero state: two writes of 3 to the GP reset register call \<open>bootstrap\<close> once.
\<close>

theorem C6_reset_handshake_witness:
  "rst_both_set (ucast (3 :: 64 word))
   \<and> \<not> rst_both_set (gp_regs apu_reset_state NV_PAPU_GPRST)
   \<and> (case gp_write apu_reset_state NV_PAPU_GPRST 3 4 of
         Inl e \<Rightarrow> False
       | Inr d1 \<Rightarrow>
           (case gp_write d1 NV_PAPU_GPRST 3 4 of
              Inl e \<Rightarrow> False
            | Inr d2 \<Rightarrow> gp_dsp d2 = [Dsp_bootstrap] \<and> gp_regs d2 NV_PAPU_GPRST = 3))"
proof -
  have z: "gp_regs apu_reset_state NV_PAPU_GPRST = 0" "gp_dsp apu_reset_state = []"
    by (simp_all add: apu_reset_state_def)
  show ?thesis
    using C6_reset_handshake [of apu_reset_state 3 "[]" 0 0 3 3]
    by (simp add: rst_both_set_3 z gp_write_rst proc_rst_write_calls)
qed

text \<open>
  C6 as stated fails when the register already holds both bits: two consecutive writes of 3
  then add no \<open>bootstrap\<close> call, not one.
\<close>

theorem C6_second_pair_counterexample:
  "rst_both_set (ucast (3 :: 64 word))
   \<and> (case gp_write rst_released_state NV_PAPU_GPRST 3 4 of
         Inl e \<Rightarrow> False
       | Inr d1 \<Rightarrow>
           (case gp_write d1 NV_PAPU_GPRST 3 4 of
              Inl e \<Rightarrow> False
            | Inr d2 \<Rightarrow>
                gp_dsp d2 = gp_dsp rst_released_state
                \<and> count_list (gp_dsp d2) Dsp_bootstrap
                    \<noteq> count_list (gp_dsp rst_released_state) Dsp_bootstrap + 1))"
proof -
  have z: "gp_regs rst_released_state NV_PAPU_GPRST = 3"
    "gp_dsp rst_released_state = [Dsp_bootstrap]"
    by (simp_all add: rst_released_state_def)
  show ?thesis
    by (simp add: rst_both_set_3 z gp_write_rst proc_rst_write_calls)
qed

section \<open>Frame tick\<close>

lemma voice_set_mask_dsp:
  "voice_set_mask d h off m v = Inr d' \<Longrightarrow>
     gp_regs d' = gp_regs d \<and> ep_regs d' = ep_regs d \<and> gp_dsp d' = gp_dsp d \<and> ep_dsp d' = ep_dsp d"
  by (auto simp: voice_set_mask_def Let_def split: if_splits)

lemma fe_method_idle_dsp:
  "fe_method d SE2FE_IDLE_VOICE a = Inr d' \<Longrightarrow> dsp_same d d'"
  by (auto simp: fe_method_idle_voice update_irq_def dsp_same_def split: if_splits)

lemma dsp_same_simps:
  "dsp_same d d" "dsp_same d (d'\<lparr>regs := r\<rparr>) = dsp_same d d'"
  "dsp_same (d\<lparr>regs := r\<rparr>) d' = dsp_same d d'"
  by (simp_all add: dsp_same_def)

lemma dsp_same_trans: "dsp_same a b \<Longrightarrow> dsp_same b c \<Longrightarrow> dsp_same a c"
  by (simp add: dsp_same_def)

lemma se_frame_voices_dsp_aux:
  assumes a: "se_frame_voices lst d = Some y"
  shows "case y of Inl e \<Rightarrow> True | Inr d' \<Rightarrow> dsp_same d d'"
proof (rule se_frame_voices.raw_induct
    [where P = "\<lambda>lst d y. case y of Inl e \<Rightarrow> True | Inr d' \<Rightarrow> dsp_same d d'", OF _ a],
    goal_cases)
  case (1 f lst d y)
  have IH: "dsp_same e e'" if "f l e = Some (Inr e')" for l e e'
    using 1(1) [OF that] by simp
  show ?case
  proof (cases y)
    case (Inl e)
    then show ?thesis by simp
  next
    case (Inr d')
    show ?thesis
    proof (cases "regs d (voice_list_current lst) \<noteq> 0xFFFF")
      case False
      with 1(2) Inr show ?thesis by (auto simp: dsp_same_simps)
    next
      case True
      with 1(2) Inr show ?thesis
        by (auto simp: Let_def dsp_same_def process_voice_def
            split: sum.splits if_splits dest!: IH fe_method_idle_dsp)
    qed
  qed
qed

lemma se_frame_voices_dsp:
  "se_frame_voices lst d = Some (Inr d') \<Longrightarrow> dsp_same d d'"
  using se_frame_voices_dsp_aux [of lst d "Inr d'"] by simp


lemma se_frame_list_dsp:
  "se_frame_list lst d = Some (Inr d') \<Longrightarrow> dsp_same d d'"
  unfolding se_frame_list_def by (drule se_frame_voices_dsp) (simp add: dsp_same_simps)

lemma se_frame_kickoff_dsp:
  "gp_dsp (se_frame_kickoff d) =
     gp_dsp d @ (if rst_both_set (gp_regs d NV_PAPU_GPRST) then [Dsp_start_frame, Dsp_run 1000]
                 else [])"
  "ep_dsp (se_frame_kickoff d) =
     ep_dsp d @ (if rst_both_set (ep_regs d NV_PAPU_EPRST) then [Dsp_start_frame] else [])"
  by (simp_all add: se_frame_kickoff_def rst_both_set_def Let_def)

lemma se_frame_result:
  assumes "se_frame d = Some (Inr d')"
  obtains d3 where "dsp_same d d3"
    "d' = se_frame_kickoff (d3\<lparr>gp_dsp := gp_dsp d3 @ se_frame_mixbuf\<rparr>)"
proof -
  from assms obtain d1 d2 d3 where
    1: "se_frame_list 0 (d\<lparr>frame_timer := Some (clock_ms d + 10)\<rparr>) = Some (Inr d1)"
    and 2: "se_frame_list 1 d1 = Some (Inr d2)"
    and 3: "se_frame_list 2 d2 = Some (Inr d3)"
    and d': "d' = se_frame_kickoff (d3\<lparr>gp_dsp := gp_dsp d3 @ se_frame_mixbuf\<rparr>)"
    by (auto simp: se_frame_def split: option.splits sum.splits)
  from se_frame_list_dsp [OF 1] se_frame_list_dsp [OF 2] se_frame_list_dsp [OF 3]
  have "dsp_same d d3" by (simp add: dsp_same_def)
  with d' show thesis by (rule that [rotated])
qed

lemma se_frame_list_empty:
  assumes "regs d (voice_list_top lst) = 0xFFFF"
  shows "se_frame_list lst d =
           Some (Inr (d\<lparr>regs := (regs d)(voice_list_current lst := 0xFFFF)\<rparr>))"
  unfolding se_frame_list_def
  by (subst se_frame_voices.simps) (simp add: assms)

text \<open>A tick over three empty lists returns: the traversal ends at once.\<close>

lemma se_frame_empty_lists:
  assumes "regs d NV_PAPU_TVL2D = 0xFFFF" "regs d NV_PAPU_TVL3D = 0xFFFF"
    "regs d NV_PAPU_TVLMP = 0xFFFF"
  shows "se_frame d =
     Some (Inr (se_frame_kickoff (d\<lparr>frame_timer := Some (clock_ms d + 10),
        regs := (regs d)(NV_PAPU_CVL2D := 0xFFFF, NV_PAPU_CVL3D := 0xFFFF,
                         NV_PAPU_CVLMP := 0xFFFF),
        gp_dsp := gp_dsp d @ se_frame_mixbuf\<rparr>)))"
proof -
  let ?d0 = "d\<lparr>frame_timer := Some (clock_ms d + 10)\<rparr>"
  let ?d1 = "?d0\<lparr>regs := (regs ?d0)(voice_list_current 0 := 0xFFFF)\<rparr>"
  let ?d2 = "?d1\<lparr>regs := (regs ?d1)(voice_list_current 1 := 0xFFFF)\<rparr>"
  have 1: "se_frame_list 0 ?d0 = Some (Inr ?d1)"
    by (rule se_frame_list_empty) (simp add: voice_list_top_def assms)
  have 2: "se_frame_list 1 ?d1 = Some (Inr ?d2)"
    by (rule se_frame_list_empty)
       (simp add: voice_list_top_def voice_list_current_def assms [unfolded reg_defs] reg_defs)
  have 3: "se_frame_list 2 ?d2 =
             Some (Inr (?d2\<lparr>regs := (regs ?d2)(voice_list_current 2 := 0xFFFF)\<rparr>))"
    by (rule se_frame_list_empty)
       (simp add: voice_list_top_def voice_list_current_def assms [unfolded reg_defs] reg_defs)
  show ?thesis
    using 1 2 3 by (simp add: se_frame_def voice_list_current_def)
qed

lemma voices_same_refl: "voices_same d d"
  by (simp add: voices_same_def)

lemma voices_same_trans: "voices_same a b \<Longrightarrow> voices_same b c \<Longrightarrow> voices_same a c"
  by (simp add: voices_same_def)

lemma list_ends_cong:
  assumes "voices_same d d'"
  shows "list_ends n d' h = list_ends n d h"
proof (induction n arbitrary: h)
  case 0
  show ?case by simp
next
  case (Suc n)
  have c: "voice_get_mask d' h off m = voice_get_mask d h off m" for off m
    using assms by (intro voice_get_mask_regs_cong) (simp_all add: voices_same_def)
  have na: "next_link d' h = next_link d h" "voice_active d' h = voice_active d h"
    by (simp_all add: next_link_def voice_active_def c)
  have t: "trap_forced d' = trap_forced d" using assms by (simp add: trap_forced_def voices_same_def)
  show ?case
    unfolding list_ends.simps na t by (simp add: Suc.IH cong: sum.case_cong)
qed

lemma se_frame_voices_done:
  "regs d (voice_list_current lst) = 0xFFFF \<Longrightarrow> se_frame_voices lst d = Some (Inr d)"
  by (subst se_frame_voices.simps) simp

text \<open>
  One iteration of the loop over a voice list, when the voice at hand has a valid handle and
  is active or the trap is forced: the iteration cannot fail, it leaves memory and the
  registers read by the traversal as they were, and it goes on with the next-voice link of
  the voice as the current handle. It is stated for any continuation \<open>F\<close> of the loop.
\<close>

lemma se_frame_voices_step:
  assumes h: "regs d (voice_list_current lst) \<noteq> 0xFFFF"
    and n: "next_link d (regs d (voice_list_current lst)) = Inr nx"
    and a: "voice_active d (regs d (voice_list_current lst)) = Inr a"
    and t: "a = 0 \<Longrightarrow> trap_forced d"
  shows "\<exists>d3. voices_same d d3 \<and> regs d3 (voice_list_current lst) = nx
     \<and> (\<forall>F.
     (if regs d (voice_list_current lst) \<noteq> 0xFFFF then
        case voice_get_mask d (regs d (voice_list_current lst)) NV_PAVS_VOICE_TAR_PITCH_LINK
               NV_PAVS_VOICE_TAR_PITCH_LINK_NEXT_VOICE_HANDLE of
          Inl e \<Rightarrow> Some (Inl e)
        | Inr n \<Rightarrow>
            (let d1 = d\<lparr>regs := (regs d)(voice_list_next lst := n)\<rparr>
             in (case voice_get_mask d1 (regs d1 (voice_list_current lst)) NV_PAVS_VOICE_PAR_STATE
                      NV_PAVS_VOICE_PAR_STATE_ACTIVE_VOICE of
                   Inl e \<Rightarrow> Some (Inl e)
                 | Inr active \<Rightarrow>
                     (case (if active = 0
                            then fe_method d1 SE2FE_IDLE_VOICE (regs d1 (voice_list_current lst))
                            else Inr (process_voice d1 (regs d1 (voice_list_current lst)))) of
                        Inl e \<Rightarrow> Some (Inl e)
                      | Inr d2 \<Rightarrow>
                          F lst
                            (d2\<lparr>regs := (regs d2)(voice_list_current lst :=
                                           regs d2 (voice_list_next lst))\<rparr>))))
      else Some (Inr d)) = (F lst d3 :: (error + MCPXAPUState) option))"
proof -
  define d1 where "d1 = d\<lparr>regs := (regs d)(voice_list_next lst := nx)\<rparr>"
  have cur1: "regs d1 (voice_list_current lst) = regs d (voice_list_current lst)"
    by (simp add: d1_def voice_list_current_def voice_list_next_def reg_defs)
  have a1: "voice_get_mask d1 (regs d (voice_list_current lst)) NV_PAVS_VOICE_PAR_STATE
              NV_PAVS_VOICE_PAR_STATE_ACTIVE_VOICE = Inr a"
    using a unfolding voice_active_def
    by (subst voice_get_mask_regs_cong [of d1 d])
       (simp_all add: d1_def voice_list_next_def reg_defs)
  have s1: "voices_same d d1"
    by (simp add: voices_same_def d1_def voice_list_next_def reg_defs)
  have nx1: "regs d1 (voice_list_next lst) = nx" by (simp add: d1_def)
  obtain d2 where d2: "(if a = 0
                         then fe_method d1 SE2FE_IDLE_VOICE (regs d1 (voice_list_current lst))
                         else Inr (process_voice d1 (regs d1 (voice_list_current lst)))) = Inr d2"
    and s2: "voices_same d1 d2" and nx2: "regs d2 (voice_list_next lst) = nx"
  proof (cases "a = 0")
    case False
    show thesis
      by (rule that [of d1]) (simp_all add: False process_voice_def voices_same_refl nx1)
  next
    case True
    from t [OF True] have tf: "regs d1 NV_PAPU_FETFORCE1 AND NV_PAPU_FETFORCE1_SE2FE_IDLE_VOICE \<noteq> 0"
      by (simp add: trap_forced_def d1_def voice_list_next_def reg_defs)
    define d2 where "d2 = update_irq (d1\<lparr>regs := (regs d1)(NV_PAPU_FEDECMETH := SE2FE_IDLE_VOICE,
              NV_PAPU_FEDECPARAM := regs d1 (voice_list_current lst),
              NV_PAPU_FECTL := ((regs d1 NV_PAPU_FECTL AND NOT NV_PAPU_FECTL_FEMETHMODE
                   OR NV_PAPU_FECTL_FEMETHMODE_TRAPPED) AND NOT NV_PAPU_FECTL_FETRAPREASON)
                   OR NV_PAPU_FECTL_FETRAPREASON_REQUESTED,
              NV_PAPU_ISTS := regs d1 NV_PAPU_ISTS OR NV_PAPU_ISTS_FETINTSTS)\<rparr>)"
    have f: "fe_method d1 SE2FE_IDLE_VOICE (regs d1 (voice_list_current lst)) = Inr d2"
      unfolding fe_method_idle_voice d2_def using tf by simp
    have m: "mem d2 = mem d1" by (simp add: d2_def update_irq_def)
    have r: "regs d2 x = regs d1 x"
      if "x \<noteq> NV_PAPU_ISTS" "x \<noteq> NV_PAPU_FEDECMETH" "x \<noteq> NV_PAPU_FEDECPARAM"
         "x \<noteq> NV_PAPU_FECTL" for x
      using that by (simp add: d2_def update_irq_regs_other)
    show thesis
    proof (rule that [of d2])
      show "(if a = 0 then fe_method d1 SE2FE_IDLE_VOICE (regs d1 (voice_list_current lst))
             else Inr (process_voice d1 (regs d1 (voice_list_current lst)))) = Inr d2"
        by (simp add: True f)
      show "voices_same d1 d2"
        unfolding voices_same_def by (simp add: m r reg_defs)
      have "regs d2 (voice_list_next lst) = regs d1 (voice_list_next lst)"
        by (rule r) (simp_all add: voice_list_next_def reg_defs)
      then show "regs d2 (voice_list_next lst) = nx" by (simp add: nx1)
    qed
  qed
  define d3 where "d3 = d2\<lparr>regs := (regs d2)(voice_list_current lst := regs d2 (voice_list_next lst))\<rparr>"
  have s3: "voices_same d2 d3"
    by (simp add: voices_same_def d3_def voice_list_current_def reg_defs)
  have c3: "regs d3 (voice_list_current lst) = nx" by (simp add: d3_def nx2)
  have n': "voice_get_mask d (regs d (voice_list_current lst)) NV_PAVS_VOICE_TAR_PITCH_LINK
              NV_PAVS_VOICE_TAR_PITCH_LINK_NEXT_VOICE_HANDLE = Inr nx"
    using n by (simp add: next_link_def)
  have "(if regs d (voice_list_current lst) \<noteq> 0xFFFF then
        case voice_get_mask d (regs d (voice_list_current lst)) NV_PAVS_VOICE_TAR_PITCH_LINK
               NV_PAVS_VOICE_TAR_PITCH_LINK_NEXT_VOICE_HANDLE of
          Inl e \<Rightarrow> Some (Inl e)
        | Inr n \<Rightarrow>
            (let d1 = d\<lparr>regs := (regs d)(voice_list_next lst := n)\<rparr>
             in (case voice_get_mask d1 (regs d1 (voice_list_current lst)) NV_PAVS_VOICE_PAR_STATE
                      NV_PAVS_VOICE_PAR_STATE_ACTIVE_VOICE of
                   Inl e \<Rightarrow> Some (Inl e)
                 | Inr active \<Rightarrow>
                     (case (if active = 0
                            then fe_method d1 SE2FE_IDLE_VOICE (regs d1 (voice_list_current lst))
                            else Inr (process_voice d1 (regs d1 (voice_list_current lst)))) of
                        Inl e \<Rightarrow> Some (Inl e)
                      | Inr d2 \<Rightarrow>
                          F lst
                            (d2\<lparr>regs := (regs d2)(voice_list_current lst :=
                                           regs d2 (voice_list_next lst))\<rparr>))))
      else Some (Inr d)) = (F lst d3 :: (error + MCPXAPUState) option)" for F
    apply (simp only: h if_True n' sum.case Let_def d1_def [symmetric] cur1 a1)
    apply (simp only: d2 [unfolded cur1] sum.case d3_def [symmetric] simp_thms if_True)
    done
  with voices_same_trans [OF voices_same_trans [OF s1 s2] s3] c3 show ?thesis by blast
qed

lemma se_frame_voices_next:
  assumes "regs d (voice_list_current lst) \<noteq> 0xFFFF"
    and "next_link d (regs d (voice_list_current lst)) = Inr nx"
    and "voice_active d (regs d (voice_list_current lst)) = Inr a"
    and "a = 0 \<Longrightarrow> trap_forced d"
  shows "\<exists>d3. voices_same d d3 \<and> regs d3 (voice_list_current lst) = nx
              \<and> se_frame_voices lst d = se_frame_voices lst d3"
proof -
  from se_frame_voices_step [OF assms] obtain d3 where
    s: "voices_same d d3" "regs d3 (voice_list_current lst) = nx"
    and e: "\<And>F :: 32 word \<Rightarrow> MCPXAPUState \<Rightarrow> (error + MCPXAPUState) option.
     (if regs d (voice_list_current lst) \<noteq> 0xFFFF then
        case voice_get_mask d (regs d (voice_list_current lst)) NV_PAVS_VOICE_TAR_PITCH_LINK
               NV_PAVS_VOICE_TAR_PITCH_LINK_NEXT_VOICE_HANDLE of
          Inl e \<Rightarrow> Some (Inl e)
        | Inr n \<Rightarrow>
            (let d1 = d\<lparr>regs := (regs d)(voice_list_next lst := n)\<rparr>
             in (case voice_get_mask d1 (regs d1 (voice_list_current lst)) NV_PAVS_VOICE_PAR_STATE
                      NV_PAVS_VOICE_PAR_STATE_ACTIVE_VOICE of
                   Inl e \<Rightarrow> Some (Inl e)
                 | Inr active \<Rightarrow>
                     (case (if active = 0
                            then fe_method d1 SE2FE_IDLE_VOICE (regs d1 (voice_list_current lst))
                            else Inr (process_voice d1 (regs d1 (voice_list_current lst)))) of
                        Inl e \<Rightarrow> Some (Inl e)
                      | Inr d2 \<Rightarrow>
                          F lst
                            (d2\<lparr>regs := (regs d2)(voice_list_current lst :=
                                           regs d2 (voice_list_next lst))\<rparr>))))
      else Some (Inr d)) = F lst d3"
    by blast
  have "se_frame_voices lst d = se_frame_voices lst d3"
    by (subst se_frame_voices.simps) (rule e)
  with s show ?thesis by blast
qed

lemma se_frame_voices_ends:
  "list_ends n d (regs d (voice_list_current lst))
     \<Longrightarrow> \<exists>d'. se_frame_voices lst d = Some (Inr d') \<and> voices_same d d'"
proof (induction n arbitrary: d)
  case 0
  then show ?case by (auto simp: se_frame_voices_done voices_same_refl)
next
  case (Suc n)
  show ?case
  proof (cases "regs d (voice_list_current lst) = 0xFFFF")
    case True
    then show ?thesis by (auto simp: se_frame_voices_done voices_same_refl)
  next
    case False
    from Suc.prems False obtain nx a where
      n: "next_link d (regs d (voice_list_current lst)) = Inr nx"
      and a: "voice_active d (regs d (voice_list_current lst)) = Inr a"
      and t: "a = 0 \<Longrightarrow> trap_forced d"
      and l: "list_ends n d nx"
      by (auto split: sum.splits if_splits)
    from se_frame_voices_next [OF False n a t] obtain d3 where
      s: "voices_same d d3" and c: "regs d3 (voice_list_current lst) = nx"
      and e: "se_frame_voices lst d = se_frame_voices lst d3" by blast
    have "list_ends n d3 (regs d3 (voice_list_current lst))"
      using l by (simp add: c list_ends_cong [OF s])
    from Suc.IH [OF this] obtain d' where
      "se_frame_voices lst d3 = Some (Inr d')" "voices_same d3 d'" by blast
    with e voices_same_trans [OF s] show ?thesis by auto
  qed
qed

lemma se_frame_list_ends:
  assumes "list_ends n d (regs d (voice_list_top lst))"
  shows "\<exists>d'. se_frame_list lst d = Some (Inr d') \<and> voices_same d d'"
proof -
  define d0 where "d0 = d\<lparr>regs := (regs d)(voice_list_current lst := regs d (voice_list_top lst))\<rparr>"
  have s: "voices_same d d0"
    by (simp add: voices_same_def d0_def voice_list_current_def reg_defs)
  have "list_ends n d0 (regs d0 (voice_list_current lst))"
    using assms by (simp add: list_ends_cong [OF s]) (simp add: d0_def)
  from se_frame_voices_ends [OF this] obtain d' where
    "se_frame_voices lst d0 = Some (Inr d')" "voices_same d0 d'" by blast
  with voices_same_trans [OF s] show ?thesis by (auto simp: se_frame_list_def d0_def)
qed

lemma se_frame_returns:
  assumes "list_ends n d (regs d NV_PAPU_TVL2D)" "list_ends n d (regs d NV_PAPU_TVL3D)"
    "list_ends n d (regs d NV_PAPU_TVLMP)"
  shows "\<exists>d'. se_frame d = Some (Inr d')"
proof -
  define d0 where "d0 = d\<lparr>frame_timer := Some (clock_ms d + 10)\<rparr>"
  have s0: "voices_same d d0" by (simp add: voices_same_def d0_def)
  have t: "voice_list_top 0 = NV_PAPU_TVL2D" "voice_list_top 1 = NV_PAPU_TVL3D"
    "voice_list_top 2 = NV_PAPU_TVLMP" by (simp_all add: voice_list_top_def)
  have r: "regs e NV_PAPU_TVL2D = regs d NV_PAPU_TVL2D" "regs e NV_PAPU_TVL3D = regs d NV_PAPU_TVL3D"
    "regs e NV_PAPU_TVLMP = regs d NV_PAPU_TVLMP" if "voices_same d e" for e
    using that by (simp_all add: voices_same_def)
  have "list_ends n d0 (regs d0 (voice_list_top 0))"
    using assms(1) by (simp add: list_ends_cong [OF s0] t r [OF s0])
  from se_frame_list_ends [OF this] obtain d1 where
    1: "se_frame_list 0 d0 = Some (Inr d1)" and "voices_same d0 d1" by blast
  then have s1: "voices_same d d1" using voices_same_trans [OF s0] by blast
  have "list_ends n d1 (regs d1 (voice_list_top 1))"
    using assms(2) by (simp add: list_ends_cong [OF s1] t r [OF s1])
  from se_frame_list_ends [OF this] obtain d2 where
    2: "se_frame_list 1 d1 = Some (Inr d2)" and "voices_same d1 d2" by blast
  then have s2: "voices_same d d2" using voices_same_trans [OF s1] by blast
  have "list_ends n d2 (regs d2 (voice_list_top 2))"
    using assms(3) by (simp add: list_ends_cong [OF s2] t r [OF s2])
  from se_frame_list_ends [OF this] obtain d3 where
    3: "se_frame_list 2 d2 = Some (Inr d3)" by blast
  show ?thesis
    unfolding se_frame_def d0_def [symmetric] by (simp add: 1 2 3)
qed

lemma se_frame_voices_self_link:
  assumes c: "regs d (voice_list_current lst) = h" and h: "h \<noteq> 0xFFFF"
    and n: "next_link d h = Inr h" and a: "voice_active d h = Inr a"
    and t: "a = 0 \<Longrightarrow> trap_forced d"
  shows "se_frame_voices lst d = None"
proof (rule ccontr)
  assume "se_frame_voices lst d \<noteq> None"
  then obtain y where y: "se_frame_voices lst d = Some y" by blast
  have "\<not> (lst = lst \<and> voices_same d d \<and> regs d (voice_list_current lst) = h)"
  proof (rule se_frame_voices.raw_induct
      [where P = "\<lambda>l e y. \<not> (l = lst \<and> voices_same d e \<and> regs e (voice_list_current l) = h)",
       OF _ y], goal_cases)
    case (1 f l e y)
    show ?case
    proof
      assume i: "l = lst \<and> voices_same d e \<and> regs e (voice_list_current l) = h"
      then have l: "l = lst" and s: "voices_same d e" and ce: "regs e (voice_list_current lst) = h"
        by auto
      have c': "voice_get_mask e h off m = voice_get_mask d h off m" for off m
        using s by (intro voice_get_mask_regs_cong) (simp_all add: voices_same_def)
      have ne: "next_link e (regs e (voice_list_current lst)) = Inr h"
        and ae: "voice_active e (regs e (voice_list_current lst)) = Inr a"
        using n a by (simp_all add: ce next_link_def voice_active_def c')
      have te: "a = 0 \<Longrightarrow> trap_forced e"
        using t s by (simp add: trap_forced_def voices_same_def)
      have he: "regs e (voice_list_current lst) \<noteq> 0xFFFF" using h ce by simp
      from se_frame_voices_step [OF he ne ae te] obtain e3 where
        s3: "voices_same e e3" and c3: "regs e3 (voice_list_current lst) = h"
        and e: "\<And>F :: 32 word \<Rightarrow> MCPXAPUState \<Rightarrow> (error + MCPXAPUState) option.
     (if regs e (voice_list_current lst) \<noteq> 0xFFFF then
        case voice_get_mask e (regs e (voice_list_current lst)) NV_PAVS_VOICE_TAR_PITCH_LINK
               NV_PAVS_VOICE_TAR_PITCH_LINK_NEXT_VOICE_HANDLE of
          Inl e \<Rightarrow> Some (Inl e)
        | Inr n \<Rightarrow>
            (let d1 = e\<lparr>regs := (regs e)(voice_list_next lst := n)\<rparr>
             in (case voice_get_mask d1 (regs d1 (voice_list_current lst)) NV_PAVS_VOICE_PAR_STATE
                      NV_PAVS_VOICE_PAR_STATE_ACTIVE_VOICE of
                   Inl e \<Rightarrow> Some (Inl e)
                 | Inr active \<Rightarrow>
                     (case (if active = 0
                            then fe_method d1 SE2FE_IDLE_VOICE (regs d1 (voice_list_current lst))
                            else Inr (process_voice d1 (regs d1 (voice_list_current lst)))) of
                        Inl e \<Rightarrow> Some (Inl e)
                      | Inr d2 \<Rightarrow>
                          F lst
                            (d2\<lparr>regs := (regs d2)(voice_list_current lst :=
                                           regs d2 (voice_list_next lst))\<rparr>))))
      else Some (Inr e)) = F lst e3"
        by blast
      from 1(2) have "f lst e3 = Some y" unfolding l e .
      from 1(1) [OF this] voices_same_trans [OF s s3] c3 show False by simp
    qed
  qed
  with c show False by (simp add: voices_same_refl)
qed

lemma busy_frame_lists:
  "list_ends 1 busy_frame_state (regs busy_frame_state NV_PAPU_TVL2D)"
  "list_ends 1 busy_frame_state (regs busy_frame_state NV_PAPU_TVL3D)"
  "list_ends 1 busy_frame_state (regs busy_frame_state NV_PAPU_TVLMP)"
  by (simp_all add: busy_frame_state_def apu_reset_state_def next_link_def voice_active_def
      voice_get_mask_def trap_forced_def ldl_le_phys_def stl_le_phys_def ctz32_vals reg_defs)

lemma hang_frame: "se_frame hang_state = None"
proof -
  define d0 where "d0 = (hang_state\<lparr>frame_timer := Some (clock_ms hang_state + 10)\<rparr>)
       \<lparr>regs := (regs hang_state)(voice_list_current 0 := regs hang_state (voice_list_top 0))\<rparr>"
  have "se_frame_voices 0 d0 = None"
  proof (rule se_frame_voices_self_link)
    show "regs d0 (voice_list_current 0) = 0"
      by (simp add: d0_def hang_state_def idle_trap_state_def apu_reset_state_def
          voice_list_top_def reg_defs)
    show "(0 :: 32 word) \<noteq> 0xFFFF" by simp
    show "next_link d0 0 = Inr 0"
      by (simp add: d0_def hang_state_def idle_trap_state_def apu_reset_state_def next_link_def
          voice_get_mask_def ldl_le_phys_def)
    show "voice_active d0 0 = Inr 0"
      by (simp add: d0_def hang_state_def idle_trap_state_def apu_reset_state_def
          voice_active_def voice_get_mask_def ldl_le_phys_def)
    show "trap_forced d0"
      by (simp add: d0_def hang_state_def idle_trap_state_def apu_reset_state_def
          trap_forced_def voice_list_current_def reg_defs)
  qed
  then show ?thesis
    by (simp add: se_frame_def se_frame_list_def d0_def)
qed

lemma abort_frame: "se_frame abort_state = Some (Inl Assert_idle_voice)"
proof -
  define d0 where "d0 = (abort_state\<lparr>frame_timer := Some (clock_ms abort_state + 10)\<rparr>)
       \<lparr>regs := (regs abort_state)(voice_list_current 0 := regs abort_state (voice_list_top 0))\<rparr>"
  have f: "fe_method e SE2FE_IDLE_VOICE x = Inl Assert_idle_voice"
    if "regs e NV_PAPU_FETFORCE1 = 0" for e x
    by (simp add: fe_method_idle_voice that)
  have "se_frame_voices 0 d0 = Some (Inl Assert_idle_voice)"
    by (subst se_frame_voices.simps)
       (simp add: d0_def abort_state_def apu_reset_state_def voice_get_mask_def ldl_le_phys_def
          f [unfolded SE2FE_IDLE_VOICE_def NV_PAPU_FETFORCE1_def]
          voice_list_top_def voice_list_current_def voice_list_next_def reg_defs)
  then show ?thesis
    by (simp add: se_frame_def se_frame_list_def d0_def)
qed

text \<open>
  C9 (amended). On a frame tick at which each of the three voice lists ends (from its
  \<open>TOP\<close> register the end marker \<open>0xFFFF\<close> is reached after finitely many voices, each with
  a handle below \<open>0xFFFF\<close> and active or with the idle-voice trap forced), the tick returns;
  the calls made to GP during the tick are the 1024 writes of the mix into X memory followed
  by \<open>start_frame\<close> and \<open>run(1000)\<close> iff the GP reset register has both \<open>GPRST\<close> and
  \<open>GPDSPRST\<close> set, and by nothing otherwise; the calls made to EP are \<open>start_frame\<close> alone
  iff the EP reset register has both bits set, and none otherwise (EP is never run).
\<close>

theorem C9_frame_kickoff:
  assumes "list_ends n d (regs d NV_PAPU_TVL2D)" "list_ends n d (regs d NV_PAPU_TVL3D)"
    "list_ends n d (regs d NV_PAPU_TVLMP)"
  shows "\<exists>d'. se_frame d = Some (Inr d')
           \<and> gp_dsp d' = gp_dsp d @ se_frame_mixbuf
               @ (if rst_both_set (gp_regs d NV_PAPU_GPRST) then [Dsp_start_frame, Dsp_run 1000]
                  else [])
           \<and> ep_dsp d' = ep_dsp d
               @ (if rst_both_set (ep_regs d NV_PAPU_EPRST) then [Dsp_start_frame] else [])"
proof -
  from se_frame_returns [OF assms] obtain d' where r: "se_frame d = Some (Inr d')" by blast
  from r obtain d3 where s: "dsp_same d d3"
    and d': "d' = se_frame_kickoff (d3\<lparr>gp_dsp := gp_dsp d3 @ se_frame_mixbuf\<rparr>)"
    by (rule se_frame_result)
  have "gp_dsp d' = gp_dsp d @ se_frame_mixbuf
               @ (if rst_both_set (gp_regs d NV_PAPU_GPRST) then [Dsp_start_frame, Dsp_run 1000]
                  else [])
        \<and> ep_dsp d' = ep_dsp d
               @ (if rst_both_set (ep_regs d NV_PAPU_EPRST) then [Dsp_start_frame] else [])"
    using s unfolding d' se_frame_kickoff_dsp by (simp add: dsp_same_def)
  with r show ?thesis by blast
qed

text \<open>
  C9 at a concrete tick with voices in the lists: voice 0, active, in the 2D list and voice
  1, idle and trapped, in the 3D list. The tick returns; with GP released and EP not, GP
  gets the mix, \<open>start_frame\<close> and \<open>run(1000)\<close>, and EP gets no call.
\<close>

theorem C9_frame_kickoff_witness:
  "list_ends 1 busy_frame_state (regs busy_frame_state NV_PAPU_TVL2D)
   \<and> list_ends 1 busy_frame_state (regs busy_frame_state NV_PAPU_TVL3D)
   \<and> list_ends 1 busy_frame_state (regs busy_frame_state NV_PAPU_TVLMP)
   \<and> regs busy_frame_state NV_PAPU_TVL2D = 0 \<and> regs busy_frame_state NV_PAPU_TVL3D = 1
   \<and> regs busy_frame_state NV_PAPU_TVLMP = 0xFFFF
   \<and> rst_both_set (gp_regs busy_frame_state NV_PAPU_GPRST)
   \<and> \<not> rst_both_set (ep_regs busy_frame_state NV_PAPU_EPRST)
   \<and> (\<exists>d'. se_frame busy_frame_state = Some (Inr d')
          \<and> gp_dsp d' = se_frame_mixbuf @ [Dsp_start_frame, Dsp_run 1000]
          \<and> ep_dsp d' = [])"
proof -
  have t: "regs busy_frame_state NV_PAPU_TVL2D = 0" "regs busy_frame_state NV_PAPU_TVL3D = 1"
    "regs busy_frame_state NV_PAPU_TVLMP = 0xFFFF"
    by (simp_all add: busy_frame_state_def reg_defs)
  have b: "rst_both_set (gp_regs busy_frame_state NV_PAPU_GPRST)"
    "\<not> rst_both_set (ep_regs busy_frame_state NV_PAPU_EPRST)"
    "gp_dsp busy_frame_state = []" "ep_dsp busy_frame_state = []"
    by (simp_all add: busy_frame_state_def apu_reset_state_def rst_both_set_def reg_defs)
  from C9_frame_kickoff [OF busy_frame_lists]
  have "\<exists>d'. se_frame busy_frame_state = Some (Inr d')
          \<and> gp_dsp d' = se_frame_mixbuf @ [Dsp_start_frame, Dsp_run 1000]
          \<and> ep_dsp d' = []"
    by (simp add: b)
  with busy_frame_lists t b(1,2) show ?thesis by (simp only: simp_thms)
qed

text \<open>
  C9 for every tick fails: with both reset registers at 3, a tick over a voice that links to
  itself and takes the idle-voice trap never leaves the traversal, and a tick over an idle
  voice with the trap not forced stops at the assertion of \<open>fe_method\<close>. Neither reaches the
  kickoff, so neither processor is started.
\<close>

theorem C9_frame_hang_counterexample:
  "rst_both_set (gp_regs hang_state NV_PAPU_GPRST)
   \<and> rst_both_set (ep_regs hang_state NV_PAPU_EPRST)
   \<and> se_frame hang_state = None
   \<and> rst_both_set (gp_regs abort_state NV_PAPU_GPRST)
   \<and> rst_both_set (ep_regs abort_state NV_PAPU_EPRST)
   \<and> se_frame abort_state = Some (Inl Assert_idle_voice)"
  by (simp add: hang_frame abort_frame)
     (simp add: hang_state_def abort_state_def rst_both_set_def reg_defs)

section \<open>Scatter/gather transfers\<close>

lemma unat_ucast_32_64: "unat (ucast (x :: 32 word) :: 64 word) = unat x"
  by (simp add: unsigned_ucast_eq take_bit_nat_eq_self
      order_less_trans [OF unsigned_less [of x, where 'a = nat]])

lemma unat_lt_32: "unat (x :: 32 word) < 4294967296"
  using unsigned_less [of x, where 'a = nat] by simp

lemma unat_ucast_64_32: "unat len < 4294967296 \<Longrightarrow> unat (ucast (len :: 64 word) :: 32 word) = unat len"
  by (simp add: unsigned_ucast_eq take_bit_nat_eq_self)

lemma clamp_unat:
  "unat (if (ucast (x :: 32 word) :: 64 word) > len then (ucast len :: 32 word) else x)
     = min (unat x) (unat len)"
proof (cases "(ucast x :: 64 word) > len")
  case True
  then have l: "unat len < unat x" by (simp add: word_less_nat_alt unat_ucast_32_64)
  with unat_lt_32 [of x] have "unat len < 4294967296" by linarith
  with True l show ?thesis by (simp add: unat_ucast_64_32)
next
  case False
  then have "unat x \<le> unat len" by (simp add: word_less_nat_alt unat_ucast_32_64)
  with False show ?thesis by simp
qed

lemma unat_sub_ucast:
  "unat (n :: 32 word) \<le> unat (len :: 64 word) \<Longrightarrow> unat (len - ucast n) = unat len - unat n"
  by (simp add: unat_sub word_le_nat_alt unat_ucast_32_64)

lemma clamp_len_unat: "unat (clamp_len btc len) = min (unat btc) (unat len)"
  unfolding clamp_len_def by (rule clamp_unat)

lemma clamp_len_pos: "btc \<noteq> 0 \<Longrightarrow> 0 < len \<Longrightarrow> 0 < unat (clamp_len btc len)"
  unfolding clamp_len_unat by (simp add: unat_gt_0 word_less_nat_alt)

lemma clamp_len_dec:
  assumes "btc \<noteq> 0" "0 < len"
  shows "unat (len - ucast (clamp_len btc len)) < unat len"
    and "unat (len - ucast (clamp_len btc len)) = unat len - unat (clamp_len btc len)"
proof -
  have "unat (clamp_len btc len) \<le> unat len" by (simp add: clamp_len_unat)
  then show 2: "unat (len - ucast (clamp_len btc len)) = unat len - unat (clamp_len btc len)"
    by (rule unat_sub_ucast)
  from clamp_len_pos [OF assms] assms(2) show "unat (len - ucast (clamp_len btc len)) < unat len"
    unfolding 2 by (simp add: word_less_nat_alt)
qed

lemma sg_loop_step:
  assumes "0 < len"
  shows "scatter_gather_loop ps sge mx dir d buf ptr len page off btc =
     (if \<not> page \<le> mx then Some (Inl Assert_page_entry)
      else if \<not> sg_paddr (mem d) sge page off + ucast (clamp_len btc len) < ram_size d
      then Some (Inl Assert_ram_size)
      else scatter_gather_loop ps sge mx dir
             (if dir then d\<lparr>mem := memcpy_to_ram (mem d) (sg_paddr (mem d) sge page off) buf ptr
                                     (unat (clamp_len btc len))\<rparr> else d)
             (if dir then buf
              else memcpy_from_ram buf ptr (mem d) (sg_paddr (mem d) sge page off)
                     (unat (clamp_len btc len)))
             (ptr + unat (clamp_len btc len)) (len - ucast (clamp_len btc len))
             (page + 1) 0 ps)"
  by (subst scatter_gather_loop.simps)
     (simp add: assms Let_def sg_paddr_def sg_entry_def clamp_len_def)

lemma sg_loop_done:
  "scatter_gather_loop ps sge mx dir d buf ptr 0 page off btc = Some (Inr (d, buf))"
  by (subst scatter_gather_loop.simps) simp

lemma sg_loop_total:
  assumes "ps \<noteq> 0"
  shows "btc \<noteq> 0 \<Longrightarrow>
    \<exists>r. scatter_gather_loop ps sge mx dir d buf ptr len page off btc = Some r"
proof (induction "unat len" arbitrary: len d buf ptr page off btc rule: less_induct)
  case less
  show ?case
  proof (cases "0 < len")
    case False
    then have "len = 0" by (simp add: word_greater_zero_iff)
    then show ?thesis by (simp add: sg_loop_done)
  next
    case True
    note IH = less.hyps [OF clamp_len_dec(1) [OF less.prems True] assms]
    show ?thesis
      unfolding sg_loop_step [OF True] using IH by simp
  qed
qed

lemma scatter_gather_rw_total:
  "\<exists>r. scatter_gather_rw ps d sge mx buf ptr addr len dir = Some r"
proof (cases "ps = 0")
  case True
  then show ?thesis by (simp add: scatter_gather_rw_def)
next
  case False
  have "addr mod ps < ps" using False by (simp add: word_mod_less_divisor word_greater_zero_iff)
  then have "ps - addr mod ps \<noteq> 0" by auto
  from sg_loop_total [OF False this] show ?thesis
    using False by (simp add: scatter_gather_rw_def Let_def)
qed

lemma csg_new_cur_0: "b \<le> c \<Longrightarrow> c < e \<Longrightarrow> csg_new_cur b e c 0 = c"
  by (simp add: csg_new_cur_def)

lemma csg_new_cur_step:
  assumes "b \<le> c" "c < e" "0 < r"
  shows "csg_new_cur b e (if c + min (e - c) r = e then b else c + min (e - c) r)
           (r - min (e - c) r) = csg_new_cur b e c r"
proof (cases "c + min (e - c) r = e")
  case True
  then have n: "min (e - c) r = e - c" and le: "e - c \<le> r" using assms by auto
  have "c - b + r = (e - b) + (r - (e - c))" using assms le by simp
  then have "(c - b + r) mod (e - b) = (r - (e - c)) mod (e - b)"
    by (metis mod_add_self1)
  then show ?thesis using True n by (simp add: csg_new_cur_def)
next
  case False
  then have n: "min (e - c) r = r" using assms by auto
  show ?thesis using False assms by (simp add: n csg_new_cur_def add.commute)
qed

lemma csg_window_arith:
  fixes base cur fend :: "32 word"
  assumes "base \<le> cur" "cur < fend" "0 < len"
  defines "n \<equiv> clamp_len (fend - cur) len"
  shows "unat n = min (unat fend - unat cur) (unat len)"
    and "0 < unat n"
    and "unat (cur + n) = unat cur + unat n"
    and "cur + n \<le> fend"
    and "cur + n \<ge> fend \<longleftrightarrow> cur + n = fend"
    and "cur + n = fend \<longleftrightarrow> unat cur + unat n = unat fend"
proof -
  have lt: "unat cur < unat fend" using assms(2) by (simp add: word_less_nat_alt)
  have sub: "unat (fend - cur) = unat fend - unat cur"
    using lt by (simp add: unat_sub word_le_nat_alt)
  show n: "unat n = min (unat fend - unat cur) (unat len)"
    by (simp add: n_def clamp_len_unat sub)
  have "fend - cur \<noteq> 0" using assms(2) by auto
  then show "0 < unat n" unfolding n_def using assms(3) by (rule clamp_len_pos)
  have b: "unat cur + unat n \<le> unat fend" using n lt by simp
  with unat_lt_32 [of fend] have "unat cur + unat n < 2 ^ 32" by simp
  then show u: "unat (cur + n) = unat cur + unat n"
    by (simp add: unat_add_lem [THEN iffD1])
  show le: "cur + n \<le> fend" using b by (simp add: word_le_nat_alt u)
  show "cur + n \<ge> fend \<longleftrightarrow> cur + n = fend" using le by auto
  show "cur + n = fend \<longleftrightarrow> unat cur + unat n = unat fend"
    by (simp add: word_unat_eq_iff u)
qed

lemma csg_done:
  "circular_scatter_gather_rw ps sge mx dir base fend d buf ptr cur 0 = Some (Inr (d, buf, cur))"
  by (subst circular_scatter_gather_rw.simps) simp

lemma csg_step:
  assumes "base \<le> cur" "cur < fend" "0 < len"
  shows "circular_scatter_gather_rw ps sge mx dir base fend d buf ptr cur len =
     (case scatter_gather_rw ps d sge mx buf ptr cur (ucast (clamp_len (fend - cur) len)) dir of
        None \<Rightarrow> None
      | Some (Inl e) \<Rightarrow> Some (Inl e)
      | Some (Inr (d', buf')) \<Rightarrow>
          circular_scatter_gather_rw ps sge mx dir base fend d' buf'
            (ptr + unat (clamp_len (fend - cur) len))
            (if cur + clamp_len (fend - cur) len = fend then base
             else cur + clamp_len (fend - cur) len)
            (len - ucast (clamp_len (fend - cur) len)))"
proof -
  note a = csg_window_arith [OF assms]
  have c: "(if len < ucast (fend - cur) then ucast len else fend - cur) = clamp_len (fend - cur) len"
    by (simp add: clamp_len_def)
  show ?thesis
    apply (subst circular_scatter_gather_rw.simps)
    apply (simp only: assms(3) if_True Let_def c)
    apply (simp only: assms(1) a(4) a(5) simp_thms if_False)
    apply (auto split: option.splits sum.splits)
    done
qed

lemma csg_chunks_run:
  assumes "base \<le> cur" "cur < fend"
  shows "circular_scatter_gather_rw ps sge mx dir base fend d buf ptr cur len =
     (case sg_run ps sge mx dir (csg_chunks (unat base) (unat fend) (unat cur) (unat len))
             d buf ptr of
        None \<Rightarrow> None
      | Some (Inl e) \<Rightarrow> Some (Inl e)
      | Some (Inr (d', buf')) \<Rightarrow>
          Some (Inr (d', buf',
                     of_nat (csg_new_cur (unat base) (unat fend) (unat cur) (unat len)))))"
  using assms
proof (induction "unat len" arbitrary: len d buf ptr cur rule: less_induct)
  case less
  have bc: "unat base \<le> unat cur" "unat cur < unat fend"
    using less.prems by (simp_all add: word_le_nat_alt word_less_nat_alt)
  show ?case
  proof (cases "0 < len")
    case False
    then have z: "len = 0" by (simp add: word_greater_zero_iff)
    have "csg_chunks (unat base) (unat fend) (unat cur) 0 = []"
      by (subst csg_chunks.simps) simp
    then show ?thesis
      using bc by (simp add: z csg_done csg_new_cur_0)
  next
    case True
    define n where "n = clamp_len (fend - cur) len"
    note a = csg_window_arith [OF less.prems True, folded n_def]
    define cur' where "cur' = (if cur + n = fend then base else cur + n)"
    have ulen: "0 < unat len" using True by (simp add: word_less_nat_alt)
    have dec: "unat (len - ucast n) < unat len" and sub: "unat (len - ucast n) = unat len - unat n"
      using a(1,2) ulen by (simp_all add: unat_sub_ucast)
    have "base \<le> cur + n" using bc(1) by (simp add: word_le_nat_alt a(3))
    then have w: "base \<le> cur'" "cur' < fend"
      using less.prems a(4) by (auto simp: cur'_def)
    have ucur': "unat cur' = (if unat cur + unat n = unat fend then unat base
                              else unat cur + unat n)"
      by (simp add: cur'_def a(6) a(3))
    note IH = less.hyps [OF dec w]
    have ch: "csg_chunks (unat base) (unat fend) (unat cur) (unat len) =
        (unat cur, unat n) # csg_chunks (unat base) (unat fend) (unat cur') (unat len - unat n)"
      using ulen bc by (subst csg_chunks.simps) (simp add: ucur' a(1))
    have nc: "csg_new_cur (unat base) (unat fend) (unat cur') (unat len - unat n)
              = csg_new_cur (unat base) (unat fend) (unat cur) (unat len)"
      by (simp only: ucur' a(1) csg_new_cur_step [OF bc ulen])
    have cv: "of_nat (unat cur) = cur" "(of_nat (unat n) :: 64 word) = ucast n"
      by simp_all
    show ?thesis
    proof (cases "scatter_gather_rw ps d sge mx buf ptr cur (ucast n) dir")
      case None
      then show ?thesis
        unfolding csg_step [OF less.prems True, folded n_def, folded cur'_def] ch
        by (simp only: sg_run.simps cv option.case)
    next
      case (Some r)
      show ?thesis
      proof (cases r)
        case (Inl e)
        with Some show ?thesis
          unfolding csg_step [OF less.prems True, folded n_def, folded cur'_def] ch
          by (simp only: sg_run.simps cv option.case sum.case)
      next
        case (Inr p)
        obtain d' buf' where p: "p = (d', buf')" by (cases p)
        from Some Inr p show ?thesis
          unfolding csg_step [OF less.prems True, folded n_def, folded cur'_def] ch
          by (simp only: sg_run.simps cv option.case sum.case prod.case IH sub nc)
      qed
    qed
  qed
qed

lemma sg_run_total: "\<exists>r. sg_run ps sge mx dir cs d buf ptr = Some r"
proof (induction cs arbitrary: d buf ptr)
  case Nil
  show ?case by simp
next
  case (Cons c cs)
  obtain a n where c: "c = (a, n)" by (cases c)
  from scatter_gather_rw_total [of ps d sge mx buf ptr "of_nat a" "of_nat n" dir]
  obtain r where r: "scatter_gather_rw ps d sge mx buf ptr (of_nat a) (of_nat n) dir = Some r"
    by blast
  show ?case
    using Cons.IH by (cases r) (auto simp: c r)
qed

lemma clamp_len_fit:
  assumes "unat len \<le> unat btc"
  shows "(ucast (clamp_len btc len) :: 64 word) = len" "unat (clamp_len btc len) = unat len"
proof -
  show u: "unat (clamp_len btc len) = unat len"
    using assms by (simp add: clamp_len_unat)
  then show "(ucast (clamp_len btc len) :: 64 word) = len"
    by (simp add: word_unat_eq_iff unat_ucast_32_64)
qed

lemma sg_single_page:
  assumes ps: "ps \<noteq> 0" and len: "0 < len"
    and fit: "unat len \<le> unat (ps - addr mod ps)"
    and pg: "addr div ps \<le> mx"
    and ram: "sg_paddr (mem d) sge (addr div ps) (addr mod ps) + len < ram_size d"
  shows "scatter_gather_rw ps d sge mx buf ptr addr len dir =
     Some (Inr (if dir then d\<lparr>mem := memcpy_to_ram (mem d)
                          (sg_paddr (mem d) sge (addr div ps) (addr mod ps)) buf ptr (unat len)\<rparr>
                else d,
                if dir then buf
                else memcpy_from_ram buf ptr (mem d)
                       (sg_paddr (mem d) sge (addr div ps) (addr mod ps)) (unat len)))"
  using ps pg ram
  by (simp add: scatter_gather_rw_def Let_def sg_loop_step [OF len] clamp_len_fit [OF fit]
      sg_loop_done)

lemma unat_minus_1_64: "unat (- 1 :: 64 word) = 18446744073709551615"
  by (simp add: unsigned_minus_1_eq_mask mask_eq_exp_minus_1)

text \<open>
  C2. For a window \<open>base \<le> cur < end\<close> and any length, the circular transfer is the run of
  the linear primitive over the chunks \<open>min (end - cur) remaining\<close> of the specification, in
  order, \<open>cur\<close> advancing by each chunk and wrapping to \<open>base\<close> exactly when it reaches \<open>end\<close>;
  it never diverges and its own assertions never fail, so it ends either in an assertion
  of the linear primitive or with the new \<open>cur\<close> at \<open>base + (cur - base + len) mod (end - base)\<close>,
  the position after the last byte.
\<close>

theorem C2_circular_chunks:
  assumes "base \<le> cur" "cur < fend"
  shows "circular_scatter_gather_rw ps sge mx dir base fend d buf ptr cur len =
           (case sg_run ps sge mx dir
                   (csg_chunks (unat base) (unat fend) (unat cur) (unat len)) d buf ptr of
              None \<Rightarrow> None
            | Some (Inl e) \<Rightarrow> Some (Inl e)
            | Some (Inr (d', buf')) \<Rightarrow>
                Some (Inr (d', buf',
                  of_nat (csg_new_cur (unat base) (unat fend) (unat cur) (unat len)))))
         \<and> circular_scatter_gather_rw ps sge mx dir base fend d buf ptr cur len \<noteq> None"
proof
  show e: "circular_scatter_gather_rw ps sge mx dir base fend d buf ptr cur len =
           (case sg_run ps sge mx dir
                   (csg_chunks (unat base) (unat fend) (unat cur) (unat len)) d buf ptr of
              None \<Rightarrow> None
            | Some (Inl e) \<Rightarrow> Some (Inl e)
            | Some (Inr (d', buf')) \<Rightarrow>
                Some (Inr (d', buf',
                  of_nat (csg_new_cur (unat base) (unat fend) (unat cur) (unat len)))))"
    using assms by (rule csg_chunks_run)
  from sg_run_total obtain r where
    "sg_run ps sge mx dir (csg_chunks (unat base) (unat fend) (unat cur) (unat len)) d buf ptr
       = Some r" by blast
  then show "circular_scatter_gather_rw ps sge mx dir base fend d buf ptr cur len \<noteq> None"
    unfolding e by (cases r) auto
qed

lemma csg_chunks_example:
  "csg_chunks 0x100 0x140 0x130 0x20 = [(0x130, 0x10), (0x100, 0x10)]"
  by (subst csg_chunks.simps, simp)+

lemma csg_new_cur_example: "csg_new_cur 0x100 0x140 0x130 0x20 = 0x110"
  by (simp add: csg_new_cur_def)

lemma sg_example_1:
  "scatter_gather_rw 0x1000 apu_reset_state 0x2000 0 pattern 0 0x130 0x10 True =
     Some (Inr (apu_reset_state\<lparr>mem := memcpy_to_ram (\<lambda>a. 0) 0x130 pattern 0 16\<rparr>, pattern))"
  by (subst sg_single_page)
     (simp_all add: sg_paddr_def sg_entry_def ldl_le_phys_def apu_reset_state_def)

lemma sg_example_2:
  "scatter_gather_rw 0x1000
     (apu_reset_state\<lparr>mem := memcpy_to_ram (\<lambda>a. 0) 0x130 pattern 0 16\<rparr>)
     0x2000 0 pattern 16 0x100 0x10 True =
     Some (Inr (apu_reset_state\<lparr>mem :=
                  memcpy_to_ram (memcpy_to_ram (\<lambda>a. 0) 0x130 pattern 0 16) 0x100 pattern 16 16\<rparr>,
                pattern))"
  by (subst sg_single_page)
     (simp_all add: sg_paddr_def sg_entry_def ldl_le_phys_def apu_reset_state_def
        memcpy_to_ram_def)

text \<open>
  C2 on scenario S6: \<open>base = 0x100\<close>, \<open>end = 0x140\<close>, \<open>cur = 0x130\<close>, a write of 0x20 bytes
  of the pattern, with 4 KiB pages and page 0 mapped to physical address 0. The first 0x10
  bytes land at \<open>[0x130, 0x140)\<close>, the next 0x10 at \<open>[0x100, 0x110)\<close>, the bytes between stay
  zero and the new \<open>cur\<close> is 0x110.
\<close>

theorem C2_circular_chunks_witness:
  "(0x100 :: 32 word) \<le> 0x130 \<and> (0x130 :: 32 word) < 0x140
   \<and> (case circular_scatter_gather_rw 0x1000 0x2000 0 True 0x100 0x140 apu_reset_state
               pattern 0 0x130 0x20 of
         None \<Rightarrow> False
       | Some r \<Rightarrow>
           (case r of
              Inl e \<Rightarrow> False
            | Inr (d', buf', new_cur) \<Rightarrow>
                new_cur = 0x110
                \<and> map (mem d') (map of_nat [0x130..<0x140]) = map pattern [0..<0x10]
                \<and> map (mem d') (map of_nat [0x100..<0x110]) = map pattern [0x10..<0x20]
                \<and> map (mem d') (map of_nat [0x110..<0x130]) = map (\<lambda>k. 0) [0x110..<0x130]))"
proof -
  define dF where "dF = apu_reset_state\<lparr>mem :=
     memcpy_to_ram (memcpy_to_ram (\<lambda>a. 0) 0x130 pattern 0 16) 0x100 pattern 16 16\<rparr>"
  have w: "(0x100 :: 32 word) \<le> 0x130" "(0x130 :: 32 word) < 0x140" by simp_all
  have r: "sg_run 0x1000 0x2000 0 True [(0x130, 0x10), (0x100, 0x10)] apu_reset_state pattern 0
        = Some (Inr (dF, pattern))"
    by (simp add: sg_example_1 sg_example_2 dF_def)
  have m: "map (mem dF) (map of_nat [0x130..<0x140]) = map pattern [0..<0x10]"
    "map (mem dF) (map of_nat [0x100..<0x110]) = map pattern [0x10..<0x20]"
    "map (mem dF) (map of_nat [0x110..<0x130]) = map (\<lambda>k. 0) [0x110..<0x130]"
    by (simp_all add: dF_def upt_rec memcpy_to_ram_def pattern_def unat_minus_1_64)
  have u: "unat (0x100 :: 32 word) = 0x100" "unat (0x140 :: 32 word) = 0x140"
    "unat (0x130 :: 32 word) = 0x130" "unat (0x20 :: 64 word) = 0x20"
    by simp_all
  from C2_circular_chunks [OF w, of "0x1000" "0x2000" 0 True apu_reset_state pattern 0 "0x20"]
  have "circular_scatter_gather_rw 0x1000 0x2000 0 True 0x100 0x140 apu_reset_state
               pattern 0 0x130 0x20 =
        (case sg_run 0x1000 0x2000 0 True
                (csg_chunks (unat (0x100 :: 32 word)) (unat (0x140 :: 32 word))
                   (unat (0x130 :: 32 word)) (unat (0x20 :: 64 word)))
                apu_reset_state pattern 0 of
           None \<Rightarrow> None
         | Some (Inl e) \<Rightarrow> Some (Inl e)
         | Some (Inr (d', buf')) \<Rightarrow>
             Some (Inr (d', buf',
               of_nat (csg_new_cur (unat (0x100 :: 32 word)) (unat (0x140 :: 32 word))
                   (unat (0x130 :: 32 word)) (unat (0x20 :: 64 word))))))"
    by (rule conjunct1)
  then have e: "circular_scatter_gather_rw 0x1000 0x2000 0 True 0x100 0x140 apu_reset_state
               pattern 0 0x130 0x20 = Some (Inr (dF, pattern, 0x110))"
    unfolding u csg_chunks_example r csg_new_cur_example by simp
  show ?thesis
    unfolding e using w m by (simp only: option.case sum.case prod.case simp_thms)
qed

section \<open>Circular round trip\<close>

lemma in_tgt_iff:
  fixes a pa :: "64 word"
  assumes "unat pa + n \<le> 2 ^ 64"
  shows "(unat (a - pa) < n) = (unat pa \<le> unat a \<and> unat a < unat pa + n)"
  using assms unsigned_less [of a, where 'a = nat] unsigned_less [of pa, where 'a = nat]
  by (auto simp: unat_sub_if')

lemma unat_add_small:
  fixes a :: "64 word"
  assumes "unat a + i < 2 ^ 64"
  shows "unat (a + of_nat i) = unat a + i"
proof -
  have "i < 2 ^ 64" using assms by simp
  then have "unat (of_nat i :: 64 word) = i" by (simp add: unat_of_nat)
  with assms show ?thesis by (simp add: unat_add_lem [THEN iffD1])
qed

lemma memcpy_to_ram_out:
  "\<not> unat (a - pa) < n \<Longrightarrow> memcpy_to_ram m pa buf p n a = m a"
  by (simp add: memcpy_to_ram_def)

lemma memcpy_to_ram_in:
  assumes "k < n" "unat pa + n \<le> 2 ^ 64"
  shows "memcpy_to_ram m pa buf p n (pa + of_nat k) = buf (p + k)"
proof -
  have "k < 2 ^ 64" using assms by simp
  then have "unat (of_nat k :: 64 word) = k" by (simp add: unat_of_nat)
  with assms(1) show ?thesis by (simp add: memcpy_to_ram_def)
qed

lemma entry_clear_byte:
  fixes ea pa :: "64 word"
  assumes "unat ea + 4 \<le> 2 ^ 64" "unat ea + 4 \<le> unat pa \<or> unat pa + n \<le> unat ea"
    "unat pa + n \<le> 2 ^ 64" "i < 4"
  shows "\<not> unat (ea + of_nat i - pa) < n"
proof -
  have "unat (ea + of_nat i) = unat ea + i" using assms(1,4) by (intro unat_add_small) simp
  then show ?thesis using assms by (auto simp: in_tgt_iff)
qed

lemma ldl_memcpy_clear:
  assumes "unat ea + 4 \<le> 2 ^ 64" "unat ea + 4 \<le> unat pa \<or> unat pa + n \<le> unat ea"
    "unat pa + n \<le> 2 ^ 64"
  shows "ldl_le_phys (memcpy_to_ram m pa buf p n) ea = ldl_le_phys m ea"
proof -
  note c = entry_clear_byte [OF assms]
  have "memcpy_to_ram m pa buf p n (ea + of_nat i) = m (ea + of_nat i)" if "i < 4" for i
    using c [OF that] by (rule memcpy_to_ram_out)
  from this [of 0] this [of 1] this [of 2] this [of 3]
  show ?thesis by (simp add: ldl_le_phys_def)
qed

lemma write_plan_out:
  "(\<And>pg ea pa p n. (pg, ea, pa, p, n) \<in> set pl \<Longrightarrow> \<not> unat (a - pa) < n)
     \<Longrightarrow> write_plan buf pl m a = m a"
proof (induction pl arbitrary: m)
  case Nil
  show ?case by simp
next
  case (Cons x xs)
  obtain pg ea pa p n where x: "x = (pg, ea, pa, p, n)" by (cases x)
  have "write_plan buf xs (memcpy_to_ram m pa buf p n) a = memcpy_to_ram m pa buf p n a"
    by (rule Cons.IH) (rule Cons.prems, rule list.set_intros(2), assumption)
  also have "\<dots> = m a" by (rule memcpy_to_ram_out) (rule Cons.prems [of pg ea pa p n], simp add: x)
  finally show ?case by (simp add: x)
qed

lemma read_plan_out:
  "(\<And>pg ea pa p n. (pg, ea, pa, p, n) \<in> set pl \<Longrightarrow> \<not> (p \<le> k \<and> k < p + n))
     \<Longrightarrow> read_plan M pl b k = b k"
proof (induction pl arbitrary: b)
  case Nil
  show ?case by simp
next
  case (Cons x xs)
  obtain pg ea pa p n where x: "x = (pg, ea, pa, p, n)" by (cases x)
  have "read_plan M xs (memcpy_from_ram b p M pa n) k = memcpy_from_ram b p M pa n k"
    by (rule Cons.IH) (rule Cons.prems, rule list.set_intros(2), assumption)
  also have "\<dots> = b k" using Cons.prems [of pg ea pa p n] by (auto simp: memcpy_from_ram_def x)
  finally show ?case by (simp add: x)
qed

lemma consec_ge: "consec q xs \<Longrightarrow> (pg, ea, pa, p, n) \<in> set xs \<Longrightarrow> q \<le> p"
proof (induction xs arbitrary: q)
  case Nil
  then show ?case by simp
next
  case (Cons x xs)
  obtain pg' ea' pa' p' n' where x: "x = (pg', ea', pa', p', n')" by (cases x)
  from Cons.prems show ?case
    using Cons.IH [of "q + n'"] by (auto simp: x)
qed

lemma ldl_write_plan_clear:
  "(\<And>x. x \<in> set pl \<Longrightarrow> piece_wf x \<and> tab_clear (pg, ea, pa, p, n) x)
     \<Longrightarrow> ldl_le_phys (write_plan buf pl m) ea = ldl_le_phys m ea"
proof (induction pl arbitrary: m)
  case Nil
  show ?case by simp
next
  case (Cons x xs)
  obtain pg' ea' pa' p' n' where x: "x = (pg', ea', pa', p', n')" by (cases x)
  have c: "piece_wf x \<and> tab_clear (pg, ea, pa, p, n) x" by (rule Cons.prems) simp
  have "ldl_le_phys (write_plan buf xs (memcpy_to_ram m pa' buf p' n')) ea
        = ldl_le_phys (memcpy_to_ram m pa' buf p' n') ea"
    by (rule Cons.IH) (rule Cons.prems, rule list.set_intros(2), assumption)
  also have "\<dots> = ldl_le_phys m ea"
    using c by (intro ldl_memcpy_clear) (simp_all add: x)
  finally show ?case by (simp add: x)
qed

lemma tgt_disj_out:
  assumes "tgt_disj (pg, ea, pa, p, n) (pg', ea', pa', p', n')"
    "unat pa + n \<le> 2 ^ 64" "unat pa' + n' \<le> 2 ^ 64" "j < n"
  shows "\<not> unat (pa + of_nat j - pa') < n'"
proof -
  have "unat (pa + of_nat j) = unat pa + j" using assms(2,4) by (intro unat_add_small) simp
  then show ?thesis using assms by (auto simp: in_tgt_iff)
qed

lemma plan_round_trip:
  assumes "list_all piece_wf pl" "plan_sep pl" "consec ptr pl"
    "ptr \<le> k" "k < ptr + plan_len pl"
  shows "read_plan (write_plan buf pl m) pl b k = buf k"
  using assms
proof (induction pl arbitrary: ptr m b)
  case Nil
  then show ?case by simp
next
  case (Cons x xs)
  obtain pg ea pa p n where x: "x = (pg, ea, pa, p, n)" by (cases x)
  have p: "p = ptr" and cs: "consec (ptr + n) xs" using Cons.prems(3) by (simp_all add: x)
  have wf: "unat pa + n \<le> 2 ^ 64" and wfs: "list_all piece_wf xs"
    using Cons.prems(1) by (simp_all add: x)
  have sep: "plan_sep xs" and dj: "list_all (\<lambda>y. tgt_disj x y) xs"
    using Cons.prems(2) by (simp_all add: list_all_iff)
  define m1 where "m1 = memcpy_to_ram m pa buf p n"
  define M where "M = write_plan buf xs m1"
  define b1 where "b1 = memcpy_from_ram b p M pa n"
  have unf: "read_plan (write_plan buf (x # xs) m) (x # xs) b k = read_plan M xs b1 k"
    by (simp add: x m1_def M_def b1_def)
  show ?case
  proof (cases "k < ptr + n")
    case True
    define j where "j = k - ptr"
    have j: "j < n" "k = ptr + j" using True Cons.prems(4) by (simp_all add: j_def)
    have "read_plan M xs b1 k = b1 k"
    proof (rule read_plan_out)
      fix pg' ea' pa' p' n'
      assume "(pg', ea', pa', p', n') \<in> set xs"
      from consec_ge [OF cs this] True show "\<not> (p' \<le> k \<and> k < p' + n')" by simp
    qed
    also have "b1 k = M (pa + of_nat j)"
      using True Cons.prems(4) by (simp add: b1_def memcpy_from_ram_def p j_def)
    also have "\<dots> = m1 (pa + of_nat j)"
      unfolding M_def
    proof (rule write_plan_out)
      fix pg' ea' pa' p' n'
      assume y: "(pg', ea', pa', p', n') \<in> set xs"
      with dj have d: "tgt_disj (pg, ea, pa, p, n) (pg', ea', pa', p', n')"
        by (auto simp: list_all_iff x)
      from y wfs have w: "unat pa' + n' \<le> 2 ^ 64" by (auto simp: list_all_iff)
      from tgt_disj_out [OF d wf w j(1)] show "\<not> unat (pa + of_nat j - pa') < n'" .
    qed
    also have "\<dots> = buf (p + j)" unfolding m1_def using j(1) wf by (rule memcpy_to_ram_in)
    finally show ?thesis unfolding unf by (simp add: p j(2))
  next
    case False
    have "read_plan (write_plan buf xs m1) xs b1 k = buf k"
      using wfs sep cs
    proof (rule Cons.IH)
      show "ptr + n \<le> k" using False by simp
      show "k < ptr + n + plan_len xs" using Cons.prems(5) by (simp add: x)
    qed
    then show ?thesis unfolding unf M_def .
  qed
qed

lemma consec_append: "consec q (xs @ ys) = (consec q xs \<and> consec (q + plan_len xs) ys)"
proof (induction xs arbitrary: q)
  case Nil
  show ?case by simp
next
  case (Cons x xs)
  obtain pg ea pa p n where x: "x = (pg, ea, pa, p, n)" by (cases x)
  show ?case by (simp add: x Cons.IH add.assoc)
qed

lemma plan_len_append: "plan_len (xs @ ys) = plan_len xs + plan_len ys"
proof (induction xs)
  case Nil
  show ?case by simp
next
  case (Cons x xs)
  obtain pg ea pa p n where x: "x = (pg, ea, pa, p, n)" by (cases x)
  show ?case by (simp add: x Cons.IH)
qed

lemma sg_paddr_lt: "unat (sg_paddr m sge page off) < 2 ^ 32"
  unfolding sg_paddr_def using unat_lt_32 [of "ldl_le_phys m (sg_entry sge page) + off"]
  by (simp add: unat_ucast_32_64)

lemma sg_plan_wf: "list_all piece_wf (sg_plan ps m sge ptr r page off btc)"
proof (induction ps m sge ptr r page off btc rule: sg_plan.induct)
  case (1 ps m sge ptr r page off btc)
  show ?case
  proof (cases "r = 0 \<or> btc = 0")
    case True
    then show ?thesis by (subst sg_plan.simps) simp
  next
    case False
    have "min (unat btc) r < 2 ^ 32" using unat_lt_32 [of btc] by simp
    with sg_paddr_lt [of m sge page off]
    have "unat (sg_paddr m sge page off) + min (unat btc) r \<le> 2 ^ 64" by simp
    with 1 [OF False] False show ?thesis by (subst sg_plan.simps) simp
  qed
qed

lemma sg_plan_consec: "consec ptr (sg_plan ps m sge ptr r page off btc)"
proof (induction ps m sge ptr r page off btc rule: sg_plan.induct)
  case (1 ps m sge ptr r page off btc)
  show ?case
  proof (cases "r = 0 \<or> btc = 0")
    case True
    then show ?thesis by (subst sg_plan.simps) simp
  next
    case False
    with 1 [OF False] show ?thesis by (subst sg_plan.simps) simp
  qed
qed

lemma sg_plan_len:
  "ps \<noteq> 0 \<Longrightarrow> btc \<noteq> 0 \<Longrightarrow> plan_len (sg_plan ps m sge ptr r page off btc) = r"
proof (induction ps m sge ptr r page off btc rule: sg_plan.induct)
  case (1 ps m sge ptr r page off btc)
  show ?case
  proof (cases "r = 0")
    case True
    then show ?thesis by (subst sg_plan.simps) simp
  next
    case False
    with 1 show ?thesis by (subst sg_plan.simps) simp
  qed
qed

lemma sg_plan_cong:
  "(\<And>pg ea pa p n. (pg, ea, pa, p, n) \<in> set (sg_plan ps m sge ptr r page off btc)
       \<Longrightarrow> ldl_le_phys m' ea = ldl_le_phys m ea)
   \<Longrightarrow> sg_plan ps m' sge ptr r page off btc = sg_plan ps m sge ptr r page off btc"
proof (induction ps m sge ptr r page off btc rule: sg_plan.induct)
  case (1 ps m sge ptr r page off btc)
  show ?case
  proof (cases "r = 0 \<or> btc = 0")
    case True
    then show ?thesis by (simp add: sg_plan.simps [of ps _ sge ptr r page off btc])
  next
    case False
    define n where "n = min (unat btc) r"
    define tl where "tl = sg_plan ps m sge (ptr + n) (r - n) (page + 1) 0 ps"
    have unf: "sg_plan ps m sge ptr r page off btc
               = (page, sg_entry sge page, sg_paddr m sge page off, ptr, n) # tl"
      using False by (subst sg_plan.simps) (simp add: n_def tl_def)
    have hd: "ldl_le_phys m' (sg_entry sge page) = ldl_le_phys m (sg_entry sge page)"
      by (rule "1.prems" [of page _ "sg_paddr m sge page off" ptr n]) (simp add: unf)
    have "sg_plan ps m' sge (ptr + n) (r - n) (page + 1) 0 ps = tl"
      unfolding tl_def n_def
    proof (rule "1.IH" [OF False])
      fix pg ea pa p k
      assume "(pg, ea, pa, p, k)
        \<in> set (sg_plan ps m sge (ptr + min (unat btc) r) (r - min (unat btc) r) (page + 1) 0 ps)"
      then have "(pg, ea, pa, p, k) \<in> set (sg_plan ps m sge ptr r page off btc)"
        unfolding unf by (simp add: tl_def n_def)
      then show "ldl_le_phys m' ea = ldl_le_phys m ea" by (rule "1.prems")
    qed
    then show ?thesis
      unfolding unf using False
      by (subst sg_plan.simps) (simp add: n_def sg_paddr_def hd)
  qed
qed

lemma csg_plan_window:
  fixes base cur fend :: "32 word"
  assumes "base \<le> cur" "cur < fend" "0 < r"
  defines "n \<equiv> min (unat (fend - cur)) r"
  shows "0 < n"
    and "unat (cur + of_nat n) = unat cur + n"
    and "base \<le> (if cur + of_nat n = fend then base else cur + of_nat n)"
    and "(if cur + of_nat n = fend then base else cur + of_nat n) < fend"
proof -
  have lt: "unat cur < unat fend" using assms(2) by (simp add: word_less_nat_alt)
  have sub: "unat (fend - cur) = unat fend - unat cur"
    using lt by (simp add: unat_sub word_le_nat_alt)
  show "0 < n" using lt assms(3) by (simp add: n_def sub)
  have b: "unat cur + n \<le> unat fend" using lt by (simp add: n_def sub)
  with unat_lt_32 [of fend] have l: "unat cur + n < 2 ^ 32" by simp
  then have "unat (of_nat n :: 32 word) = n" by (simp add: unat_of_nat)
  with l show u: "unat (cur + of_nat n) = unat cur + n"
    by (simp add: unat_add_lem [THEN iffD1])
  have "base \<le> cur + of_nat n" using assms(1) by (simp add: word_le_nat_alt u)
  then show "base \<le> (if cur + of_nat n = fend then base else cur + of_nat n)" by simp
  have "cur + of_nat n \<le> fend" using b by (simp add: word_le_nat_alt u)
  then show "(if cur + of_nat n = fend then base else cur + of_nat n) < fend"
    using assms(1,2) by auto
qed

lemma csg_plan_wf: "list_all piece_wf (csg_plan ps m sge ptr base fend cur r)"
proof (induction ps m sge ptr base fend cur r rule: csg_plan.induct)
  case (1 ps m sge ptr base fend cur r)
  show ?case
  proof (cases "r = 0 \<or> \<not> (base \<le> cur \<and> cur < fend)")
    case True
    then show ?thesis by (subst csg_plan.simps) simp
  next
    case False
    with 1 [OF False] show ?thesis by (subst csg_plan.simps) (simp add: sg_plan_wf)
  qed
qed

lemma write_plan_append:
  "write_plan buf (xs @ ys) m = write_plan buf ys (write_plan buf xs m)"
proof (induction xs arbitrary: m)
  case Nil
  show ?case by simp
next
  case (Cons x xs)
  obtain pg ea pa p n where x: "x = (pg, ea, pa, p, n)" by (cases x)
  show ?case by (simp add: x Cons.IH)
qed

lemma read_plan_append:
  "read_plan M (xs @ ys) b = read_plan M ys (read_plan M xs b)"
proof (induction xs arbitrary: b)
  case Nil
  show ?case by simp
next
  case (Cons x xs)
  obtain pg ea pa p n where x: "x = (pg, ea, pa, p, n)" by (cases x)
  show ?case by (simp add: x Cons.IH)
qed

lemma plan_sep_append:
  "plan_sep (xs @ ys) =
     (plan_sep xs \<and> plan_sep ys
      \<and> list_all (\<lambda>x. list_all (\<lambda>y. tgt_disj x y \<and> tab_clear x y \<and> tab_clear y x) ys) xs)"
  by (induction xs) (auto simp: list_all_iff)

lemma plan_sep_clear:
  "plan_sep pl \<Longrightarrow> x \<in> set pl \<Longrightarrow> y \<in> set pl \<Longrightarrow> tab_clear x y"
  by (induction pl) (auto simp: list_all_iff)

lemma page_rest_nz: "ps \<noteq> 0 \<Longrightarrow> ps - cur mod ps \<noteq> (0 :: 32 word)"
proof -
  assume "ps \<noteq> 0"
  then have "cur mod ps < ps" by (simp add: word_mod_less_divisor word_greater_zero_iff)
  then show ?thesis by auto
qed

lemma csg_plan_consec:
  "ps \<noteq> 0 \<Longrightarrow> consec ptr (csg_plan ps m sge ptr base fend cur r)"
proof (induction ps m sge ptr base fend cur r rule: csg_plan.induct)
  case (1 ps m sge ptr base fend cur r)
  show ?case
  proof (cases "r = 0 \<or> \<not> (base \<le> cur \<and> cur < fend)")
    case True
    then show ?thesis by (subst csg_plan.simps) simp
  next
    case False
    note ps = \<open>ps \<noteq> 0\<close>
    from 1 False show ?thesis
      by (subst csg_plan.simps)
         (simp add: consec_append sg_plan_consec sg_plan_len [OF ps page_rest_nz [OF ps]])
  qed
qed

lemma csg_plan_len:
  "ps \<noteq> 0 \<Longrightarrow> base \<le> cur \<Longrightarrow> cur < fend
     \<Longrightarrow> plan_len (csg_plan ps m sge ptr base fend cur r) = r"
proof (induction ps m sge ptr base fend cur r rule: csg_plan.induct)
  case (1 ps m sge ptr base fend cur r)
  show ?case
  proof (cases "r = 0")
    case True
    then show ?thesis by (subst csg_plan.simps) simp
  next
    case False
    then have r: "0 < r" by simp
    note ps = \<open>ps \<noteq> 0\<close>
    note w = csg_plan_window [OF "1.prems"(2,3) r]
    have g: "\<not> (r = 0 \<or> \<not> (base \<le> cur \<and> cur < fend))" using False "1.prems" by simp
    have "plan_len (csg_plan ps m sge (ptr + min (unat (fend - cur)) r) base fend
               (if cur + of_nat (min (unat (fend - cur)) r) = fend then base
                else cur + of_nat (min (unat (fend - cur)) r))
               (r - min (unat (fend - cur)) r)) = r - min (unat (fend - cur)) r"
      using g ps w(3) w(4) by (rule "1.IH")
    then show ?thesis
      using g by (subst csg_plan.simps)
         (simp add: plan_len_append sg_plan_len [OF ps page_rest_nz [OF ps]])
  qed
qed

lemma csg_plan_cong:
  "(\<And>pg ea pa p n. (pg, ea, pa, p, n) \<in> set (csg_plan ps m sge ptr base fend cur r)
       \<Longrightarrow> ldl_le_phys m' ea = ldl_le_phys m ea)
   \<Longrightarrow> csg_plan ps m' sge ptr base fend cur r = csg_plan ps m sge ptr base fend cur r"
proof (induction ps m sge ptr base fend cur r rule: csg_plan.induct)
  case (1 ps m sge ptr base fend cur r)
  show ?case
  proof (cases "r = 0 \<or> \<not> (base \<le> cur \<and> cur < fend)")
    case True
    then show ?thesis by (simp add: csg_plan.simps [of ps _ sge ptr base fend cur r])
  next
    case False
    define n where "n = min (unat (fend - cur)) r"
    define cur' where "cur' = (if cur + of_nat n = fend then base else cur + of_nat n)"
    define A where "A = sg_plan ps m sge ptr n (cur div ps) (cur mod ps) (ps - cur mod ps)"
    define B where "B = csg_plan ps m sge (ptr + n) base fend cur' (r - n)"
    have unf: "csg_plan ps m sge ptr base fend cur r = A @ B"
      using False by (subst csg_plan.simps) (simp add: n_def cur'_def A_def B_def)
    have a: "sg_plan ps m' sge ptr n (cur div ps) (cur mod ps) (ps - cur mod ps) = A"
      unfolding A_def
    proof (rule sg_plan_cong)
      fix pg ea pa p k
      assume "(pg, ea, pa, p, k)
        \<in> set (sg_plan ps m sge ptr n (cur div ps) (cur mod ps) (ps - cur mod ps))"
      then have "(pg, ea, pa, p, k) \<in> set (csg_plan ps m sge ptr base fend cur r)"
        unfolding unf by (simp add: A_def)
      then show "ldl_le_phys m' ea = ldl_le_phys m ea" by (rule "1.prems")
    qed
    have b: "csg_plan ps m' sge (ptr + n) base fend cur' (r - n) = B"
      unfolding B_def cur'_def n_def
    proof (rule "1.IH" [OF False])
      fix pg ea pa p k
      assume "(pg, ea, pa, p, k)
        \<in> set (csg_plan ps m sge (ptr + min (unat (fend - cur)) r) base fend
            (if cur + of_nat (min (unat (fend - cur)) r) = fend then base
             else cur + of_nat (min (unat (fend - cur)) r))
            (r - min (unat (fend - cur)) r))"
      then have "(pg, ea, pa, p, k) \<in> set (csg_plan ps m sge ptr base fend cur r)"
        unfolding unf by (auto simp: B_def cur'_def n_def)
      then show "ldl_le_phys m' ea = ldl_le_phys m ea" by (rule "1.prems")
    qed
    have "csg_plan ps m' sge ptr base fend cur r = A @ B"
      using False
      by (subst csg_plan.simps)
         (simp add: a [unfolded n_def] b [unfolded cur'_def n_def])
    then show ?thesis unfolding unf .
  qed
qed

lemma sg_plan_step:
  assumes "0 < len" "btc \<noteq> 0"
  shows "sg_plan ps m sge ptr (unat len) page off btc =
     (page, sg_entry sge page, sg_paddr m sge page off, ptr, unat (clamp_len btc len))
       # sg_plan ps m sge (ptr + unat (clamp_len btc len))
           (unat (len - ucast (clamp_len btc len))) (page + 1) 0 ps"
proof -
  have "unat len \<noteq> 0" using assms(1) by (simp add: word_less_nat_alt)
  then show ?thesis
    using assms(2)
    by (subst sg_plan.simps)
       (simp add: clamp_len_dec(2) [OF assms(2,1)] clamp_len_unat)
qed

lemma sg_loop_write_plan:
  assumes "ps \<noteq> 0"
  shows "btc \<noteq> 0 \<Longrightarrow> plan_sep (sg_plan ps (mem d) sge ptr (unat len) page off btc)
    \<Longrightarrow> scatter_gather_loop ps sge mx True d buf ptr len page off btc = Some (Inr (d', buf'))
    \<Longrightarrow> d' = d\<lparr>mem := write_plan buf (sg_plan ps (mem d) sge ptr (unat len) page off btc) (mem d)\<rparr>
        \<and> buf' = buf
        \<and> list_all (piece_ok mx (ram_size d)) (sg_plan ps (mem d) sge ptr (unat len) page off btc)"
proof (induction "unat len" arbitrary: len d ptr page off btc rule: less_induct)
  case less
  show ?case
  proof (cases "0 < len")
    case False
    then have z: "len = 0" by (simp add: word_greater_zero_iff)
    have "sg_plan ps (mem d) sge ptr 0 page off btc = []" by (subst sg_plan.simps) simp
    with less.prems(3) show ?thesis by (simp add: z sg_loop_done)
  next
    case True
    define n where "n = clamp_len btc len"
    define pa where "pa = sg_paddr (mem d) sge page off"
    define m1 where "m1 = memcpy_to_ram (mem d) pa buf ptr (unat n)"
    define x :: piece where "x = (page, sg_entry sge page, pa, ptr, unat n)"
    define tl where "tl = sg_plan ps (mem d) sge (ptr + unat n) (unat (len - ucast n)) (page + 1) 0 ps"
    have unf: "sg_plan ps (mem d) sge ptr (unat len) page off btc = x # tl"
      unfolding x_def tl_def n_def pa_def by (rule sg_plan_step [OF True less.prems(1)])
    from less.prems(3) have
      ok: "page \<le> mx" "pa + ucast n < ram_size d"
      and run: "scatter_gather_loop ps sge mx True (d\<lparr>mem := m1\<rparr>) buf (ptr + unat n)
                  (len - ucast n) (page + 1) 0 ps = Some (Inr (d', buf'))"
      unfolding sg_loop_step [OF True]
      by (simp_all add: n_def pa_def m1_def split: if_splits)
    have sep: "plan_sep (x # tl)" using less.prems(2) unfolding unf .
    then have sep_tl: "plan_sep tl" and cl: "list_all (\<lambda>y. tab_clear y x) tl"
      by (simp_all add: list_all_iff)
    have wfx: "piece_wf x"
      using sg_plan_wf [of ps "mem d" sge ptr "unat len" page off btc] unfolding unf by simp
    have tl1: "sg_plan ps m1 sge (ptr + unat n) (unat (len - ucast n)) (page + 1) 0 ps = tl"
      unfolding tl_def
    proof (rule sg_plan_cong)
      fix pg ea pa' p k
      assume "(pg, ea, pa', p, k)
        \<in> set (sg_plan ps (mem d) sge (ptr + unat n) (unat (len - ucast n)) (page + 1) 0 ps)"
      then have "tab_clear (pg, ea, pa', p, k) x" using cl by (auto simp: list_all_iff tl_def)
      then show "ldl_le_phys m1 ea = ldl_le_phys (mem d) ea"
        unfolding m1_def using wfx by (intro ldl_memcpy_clear) (simp_all add: x_def)
    qed
    have dec: "unat (len - ucast n) < unat len"
      unfolding n_def by (rule clamp_len_dec(1) [OF less.prems(1) True])
    have "d' = d\<lparr>mem := m1\<rparr>\<lparr>mem := write_plan buf
              (sg_plan ps (mem (d\<lparr>mem := m1\<rparr>)) sge (ptr + unat n) (unat (len - ucast n))
                 (page + 1) 0 ps) (mem (d\<lparr>mem := m1\<rparr>))\<rparr>
        \<and> buf' = buf
        \<and> list_all (piece_ok mx (ram_size (d\<lparr>mem := m1\<rparr>)))
             (sg_plan ps (mem (d\<lparr>mem := m1\<rparr>)) sge (ptr + unat n) (unat (len - ucast n))
                 (page + 1) 0 ps)"
      using dec assms
    proof (rule less.hyps)
      show "plan_sep (sg_plan ps (mem (d\<lparr>mem := m1\<rparr>)) sge (ptr + unat n)
              (unat (len - ucast n)) (page + 1) 0 ps)"
        using sep_tl by (simp add: tl1)
      show "scatter_gather_loop ps sge mx True (d\<lparr>mem := m1\<rparr>) buf (ptr + unat n)
              (len - ucast n) (page + 1) 0 ps = Some (Inr (d', buf'))" by (rule run)
    qed
    then have r: "d' = d\<lparr>mem := write_plan buf tl m1\<rparr>" "buf' = buf"
      "list_all (piece_ok mx (ram_size d)) tl"
      by (simp_all add: tl1)
    have okx: "piece_ok mx (ram_size d) x"
      using ok by (simp add: x_def)
    show ?thesis
      unfolding unf using r okx by (simp add: x_def m1_def)
  qed
qed

lemma sg_loop_read_plan:
  assumes "ps \<noteq> 0"
  shows "btc \<noteq> 0
    \<Longrightarrow> list_all (piece_ok mx (ram_size e)) (sg_plan ps (mem e) sge ptr (unat len) page off btc)
    \<Longrightarrow> scatter_gather_loop ps sge mx False e buf ptr len page off btc
        = Some (Inr (e, read_plan (mem e) (sg_plan ps (mem e) sge ptr (unat len) page off btc) buf))"
proof (induction "unat len" arbitrary: len buf ptr page off btc rule: less_induct)
  case less
  show ?case
  proof (cases "0 < len")
    case False
    then have z: "len = 0" by (simp add: word_greater_zero_iff)
    have "sg_plan ps (mem e) sge ptr 0 page off btc = []" by (subst sg_plan.simps) simp
    then show ?thesis by (simp add: z sg_loop_done)
  next
    case True
    define n where "n = clamp_len btc len"
    define pa where "pa = sg_paddr (mem e) sge page off"
    define b1 where "b1 = memcpy_from_ram buf ptr (mem e) pa (unat n)"
    define x :: piece where "x = (page, sg_entry sge page, pa, ptr, unat n)"
    define tl where "tl = sg_plan ps (mem e) sge (ptr + unat n) (unat (len - ucast n)) (page + 1) 0 ps"
    have unf: "sg_plan ps (mem e) sge ptr (unat len) page off btc = x # tl"
      unfolding x_def tl_def n_def pa_def by (rule sg_plan_step [OF True less.prems(1)])
    from less.prems(2) have ok: "page \<le> mx" "pa + ucast n < ram_size e"
      and oktl: "list_all (piece_ok mx (ram_size e)) tl"
      unfolding unf by (simp_all add: x_def)
    have dec: "unat (len - ucast n) < unat len"
      unfolding n_def by (rule clamp_len_dec(1) [OF less.prems(1) True])
    have "scatter_gather_loop ps sge mx False e b1 (ptr + unat n) (len - ucast n) (page + 1) 0 ps
        = Some (Inr (e, read_plan (mem e) tl b1))"
      unfolding tl_def using dec assms oktl [unfolded tl_def] by (rule less.hyps)
    then show ?thesis
      unfolding unf sg_loop_step [OF True]
      using ok by (simp add: n_def [symmetric] pa_def [symmetric] b1_def x_def)
  qed
qed

lemma sg_rw_write_plan:
  assumes "ps \<noteq> 0"
    and "plan_sep (sg_plan ps (mem d) sge ptr (unat len) (addr div ps) (addr mod ps)
                     (ps - addr mod ps))"
    and "scatter_gather_rw ps d sge mx buf ptr addr len True = Some (Inr (d', buf'))"
  shows "d' = d\<lparr>mem := write_plan buf (sg_plan ps (mem d) sge ptr (unat len) (addr div ps)
                          (addr mod ps) (ps - addr mod ps)) (mem d)\<rparr>
        \<and> buf' = buf
        \<and> list_all (piece_ok mx (ram_size d)) (sg_plan ps (mem d) sge ptr (unat len)
             (addr div ps) (addr mod ps) (ps - addr mod ps))"
  using assms(3) sg_loop_write_plan [OF assms(1) page_rest_nz [OF assms(1)] assms(2)]
  by (simp add: scatter_gather_rw_def Let_def assms(1))

lemma sg_rw_read_plan:
  assumes "ps \<noteq> 0"
    and "list_all (piece_ok mx (ram_size e)) (sg_plan ps (mem e) sge ptr (unat len)
             (addr div ps) (addr mod ps) (ps - addr mod ps))"
  shows "scatter_gather_rw ps e sge mx buf ptr addr len False
     = Some (Inr (e, read_plan (mem e) (sg_plan ps (mem e) sge ptr (unat len) (addr div ps)
                          (addr mod ps) (ps - addr mod ps)) buf))"
  using sg_loop_read_plan [OF assms(1) page_rest_nz [OF assms(1)] assms(2)]
  by (simp add: scatter_gather_rw_def Let_def assms(1))

lemma csg_plan_step:
  fixes base cur fend :: "32 word"
  assumes "base \<le> cur" "cur < fend" "0 < len"
  shows "csg_plan ps m sge ptr base fend cur (unat len) =
     sg_plan ps m sge ptr (unat (ucast (clamp_len (fend - cur) len) :: 64 word))
        (cur div ps) (cur mod ps) (ps - cur mod ps)
     @ csg_plan ps m sge (ptr + unat (clamp_len (fend - cur) len)) base fend
         (if cur + clamp_len (fend - cur) len = fend then base
          else cur + clamp_len (fend - cur) len)
         (unat (len - ucast (clamp_len (fend - cur) len)))"
proof -
  define n where "n = clamp_len (fend - cur) len"
  have nz: "unat len \<noteq> 0" using assms(3) by (simp add: word_less_nat_alt)
  have un: "unat n = min (unat (fend - cur)) (unat len)" by (simp add: n_def clamp_len_unat)
  have on: "of_nat (min (unat (fend - cur)) (unat len)) = n"
    unfolding un [symmetric] by simp
  have sub: "unat (len - ucast n) = unat len - unat n"
    by (rule unat_sub_ucast) (simp add: un)
  show ?thesis
    unfolding n_def [symmetric]
    using nz assms(1,2)
    by (subst csg_plan.simps) (simp add: on sub unat_ucast_32_64 un [symmetric])
qed

lemma csg_write_plan:
  fixes base cur fend :: "32 word"
  shows "base \<le> cur \<Longrightarrow> cur < fend
    \<Longrightarrow> plan_sep (csg_plan ps (mem d) sge ptr base fend cur (unat len))
    \<Longrightarrow> circular_scatter_gather_rw ps sge mx True base fend d buf ptr cur len
          = Some (Inr (d', buf', nc))
    \<Longrightarrow> d' = d\<lparr>mem := write_plan buf (csg_plan ps (mem d) sge ptr base fend cur (unat len))
                          (mem d)\<rparr>
        \<and> buf' = buf
        \<and> list_all (piece_ok mx (ram_size d))
             (csg_plan ps (mem d) sge ptr base fend cur (unat len))"
proof (induction "unat len" arbitrary: len d ptr cur rule: less_induct)
  case less
  show ?case
  proof (cases "0 < len")
    case False
    then have z: "len = 0" by (simp add: word_greater_zero_iff)
    have "csg_plan ps (mem d) sge ptr base fend cur 0 = []" by (subst csg_plan.simps) simp
    with less.prems(4) show ?thesis by (simp add: z csg_done)
  next
    case True
    define n where "n = clamp_len (fend - cur) len"
    define cur' where "cur' = (if cur + n = fend then base else cur + n)"
    define A where "A = sg_plan ps (mem d) sge ptr (unat (ucast n :: 64 word))
                          (cur div ps) (cur mod ps) (ps - cur mod ps)"
    define B where "B = csg_plan ps (mem d) sge (ptr + unat n) base fend cur'
                          (unat (len - ucast n))"
    note a = csg_window_arith [OF less.prems(1,2) True, folded n_def]
    have unf: "csg_plan ps (mem d) sge ptr base fend cur (unat len) = A @ B"
      unfolding A_def B_def cur'_def n_def by (rule csg_plan_step [OF less.prems(1,2) True])
    have ulen: "0 < unat len" using True by (simp add: word_less_nat_alt)
    have dec: "unat (len - ucast n) < unat len"
      using a(1,2) ulen by (simp add: unat_sub_ucast)
    have "base \<le> cur + n" using less.prems(1) by (simp add: word_le_nat_alt a(3))
    then have w: "base \<le> cur'" "cur' < fend"
      using less.prems(1,2) a(4) by (auto simp: cur'_def)
    note step = less.prems(4) [unfolded csg_step [OF less.prems(1,2) True, folded n_def,
                                                  folded cur'_def]]
    have ps: "ps \<noteq> 0"
    proof
      assume "ps = 0"
      then have "scatter_gather_rw ps d sge mx buf ptr cur (ucast n) True
                 = Some (Inl Division_by_zero)" by (simp add: scatter_gather_rw_def)
      with step show False by simp
    qed
    from step obtain d1 buf1 where
      sg: "scatter_gather_rw ps d sge mx buf ptr cur (ucast n) True = Some (Inr (d1, buf1))"
      and run: "circular_scatter_gather_rw ps sge mx True base fend d1 buf1 (ptr + unat n) cur'
                 (len - ucast n) = Some (Inr (d', buf', nc))"
      by (auto split: option.splits sum.splits)
    have sep: "plan_sep A" "plan_sep B"
      and cl: "list_all (\<lambda>x. list_all (\<lambda>y. tab_clear y x) B) A"
      using less.prems(3) unfolding unf plan_sep_append by (simp_all add: list_all_iff)
    from sg_rw_write_plan [OF ps sep(1) [unfolded A_def] sg]
    have d1: "d1 = d\<lparr>mem := write_plan buf A (mem d)\<rparr>" and b1: "buf1 = buf"
      and okA: "list_all (piece_ok mx (ram_size d)) A"
      by (simp_all add: A_def)
    have wfA: "list_all piece_wf A" unfolding A_def by (rule sg_plan_wf)
    have B1: "csg_plan ps (mem d1) sge (ptr + unat n) base fend cur' (unat (len - ucast n)) = B"
      unfolding B_def
    proof (rule csg_plan_cong)
      fix pg ea pa p k
      assume y: "(pg, ea, pa, p, k)
        \<in> set (csg_plan ps (mem d) sge (ptr + unat n) base fend cur' (unat (len - ucast n)))"
      have "ldl_le_phys (write_plan buf A (mem d)) ea = ldl_le_phys (mem d) ea"
      proof (rule ldl_write_plan_clear)
        fix x assume "x \<in> set A"
        with wfA cl y show "piece_wf x \<and> tab_clear (pg, ea, pa, p, k) x"
          by (auto simp: list_all_iff B_def)
      qed
      then show "ldl_le_phys (mem d1) ea = ldl_le_phys (mem d) ea" by (simp add: d1)
    qed
    have "d' = d1\<lparr>mem := write_plan buf
              (csg_plan ps (mem d1) sge (ptr + unat n) base fend cur' (unat (len - ucast n)))
              (mem d1)\<rparr>
        \<and> buf' = buf
        \<and> list_all (piece_ok mx (ram_size d1))
             (csg_plan ps (mem d1) sge (ptr + unat n) base fend cur' (unat (len - ucast n)))"
      using dec w
    proof (rule less.hyps)
      show "plan_sep (csg_plan ps (mem d1) sge (ptr + unat n) base fend cur'
               (unat (len - ucast n)))" using sep(2) by (simp add: B1)
      show "circular_scatter_gather_rw ps sge mx True base fend d1 buf (ptr + unat n) cur'
              (len - ucast n) = Some (Inr (d', buf', nc))" using run by (simp add: b1)
    qed
    then have r: "d' = d\<lparr>mem := write_plan buf B (write_plan buf A (mem d))\<rparr>" "buf' = buf"
      "list_all (piece_ok mx (ram_size d)) B"
      unfolding B1 by (simp_all add: d1)
    show ?thesis
      unfolding unf using r okA by (simp add: write_plan_append)
  qed
qed

lemma csg_read_plan:
  fixes base cur fend :: "32 word"
  assumes "ps \<noteq> 0"
  shows "base \<le> cur \<Longrightarrow> cur < fend
    \<Longrightarrow> list_all (piece_ok mx (ram_size e))
             (csg_plan ps (mem e) sge ptr base fend cur (unat len))
    \<Longrightarrow> \<exists>nc. circular_scatter_gather_rw ps sge mx False base fend e buf ptr cur len
          = Some (Inr (e, read_plan (mem e)
                            (csg_plan ps (mem e) sge ptr base fend cur (unat len)) buf, nc))"
proof (induction "unat len" arbitrary: len buf ptr cur rule: less_induct)
  case less
  show ?case
  proof (cases "0 < len")
    case False
    then have z: "len = 0" by (simp add: word_greater_zero_iff)
    have "csg_plan ps (mem e) sge ptr base fend cur 0 = []" by (subst csg_plan.simps) simp
    then show ?thesis by (simp add: z csg_done)
  next
    case True
    define n where "n = clamp_len (fend - cur) len"
    define cur' where "cur' = (if cur + n = fend then base else cur + n)"
    define A where "A = sg_plan ps (mem e) sge ptr (unat (ucast n :: 64 word))
                          (cur div ps) (cur mod ps) (ps - cur mod ps)"
    define B where "B = csg_plan ps (mem e) sge (ptr + unat n) base fend cur'
                          (unat (len - ucast n))"
    note a = csg_window_arith [OF less.prems(1,2) True, folded n_def]
    have unf: "csg_plan ps (mem e) sge ptr base fend cur (unat len) = A @ B"
      unfolding A_def B_def cur'_def n_def by (rule csg_plan_step [OF less.prems(1,2) True])
    have ulen: "0 < unat len" using True by (simp add: word_less_nat_alt)
    have dec: "unat (len - ucast n) < unat len"
      using a(1,2) ulen by (simp add: unat_sub_ucast)
    have "base \<le> cur + n" using less.prems(1) by (simp add: word_le_nat_alt a(3))
    then have w: "base \<le> cur'" "cur' < fend"
      using less.prems(1,2) a(4) by (auto simp: cur'_def)
    have ok: "list_all (piece_ok mx (ram_size e)) A" "list_all (piece_ok mx (ram_size e)) B"
      using less.prems(3) unfolding unf by simp_all
    have sg: "scatter_gather_rw ps e sge mx buf ptr cur (ucast n) False
              = Some (Inr (e, read_plan (mem e) A buf))"
      unfolding A_def by (rule sg_rw_read_plan [OF assms ok(1) [unfolded A_def]])
    from less.hyps [OF dec w ok(2) [unfolded B_def]]
    obtain nc where "circular_scatter_gather_rw ps sge mx False base fend e
        (read_plan (mem e) A buf) (ptr + unat n) cur' (len - ucast n)
        = Some (Inr (e, read_plan (mem e) B (read_plan (mem e) A buf), nc))"
      unfolding B_def by blast
    then show ?thesis
      unfolding unf csg_step [OF less.prems(1,2) True, folded n_def, folded cur'_def]
      by (simp add: sg read_plan_append)
  qed
qed

lemma csg_result_cur:
  fixes base cur fend :: "32 word"
  assumes "base \<le> cur" "cur < fend"
    and "circular_scatter_gather_rw ps sge mx dir base fend d buf ptr cur len
         = Some (Inr (d', buf', nc))"
  shows "nc = of_nat (csg_new_cur (unat base) (unat fend) (unat cur) (unat len))"
  using assms(3) unfolding csg_chunks_run [OF assms(1,2)]
  by (auto split: option.splits sum.splits)

lemma csg_chunks_ring: "csg_chunks 0x100 0x108 0x104 6 = [(0x104, 4), (0x100, 2)]"
  by (subst csg_chunks.simps, simp)+

lemma csg_chunks_overrun: "csg_chunks 0x100 0x104 0x100 8 = [(0x100, 4), (0x100, 4)]"
  by (subst csg_chunks.simps, simp)+

lemma ring_write:
  "circular_scatter_gather_rw 0x1000 0x2000 0 True 0x100 0x108 apu_reset_state pattern 0 0x104 6
     = Some (Inr (ring_state, pattern, 0x102))"
proof -
  have w: "(0x100 :: 32 word) \<le> 0x104" "(0x104 :: 32 word) < 0x108" by simp_all
  have 1: "scatter_gather_rw 0x1000 apu_reset_state 0x2000 0 pattern 0 0x104 4 True =
     Some (Inr (apu_reset_state\<lparr>mem := memcpy_to_ram (\<lambda>a. 0) 0x104 pattern 0 4\<rparr>, pattern))"
    by (subst sg_single_page)
       (simp_all add: sg_paddr_def sg_entry_def ldl_le_phys_def apu_reset_state_def)
  have 2: "scatter_gather_rw 0x1000
     (apu_reset_state\<lparr>mem := memcpy_to_ram (\<lambda>a. 0) 0x104 pattern 0 4\<rparr>)
     0x2000 0 pattern 4 0x100 2 True = Some (Inr (ring_state, pattern))"
    by (subst sg_single_page)
       (simp_all add: sg_paddr_def sg_entry_def ldl_le_phys_def apu_reset_state_def
          memcpy_to_ram_def ring_state_def)
  show ?thesis
    unfolding csg_chunks_run [OF w]
    by (simp add: csg_chunks_ring 1 2 csg_new_cur_def)
qed

lemma ring_plan:
  "csg_plan 0x1000 (mem apu_reset_state) 0x2000 0 0x100 0x108 0x104 (unat (6 :: 64 word))
     = [(0, 0x2000, 0x104, 0, 4), (0, 0x2000, 0x100, 4, 2)]"
  apply (subst csg_plan.simps, simp)
  apply (subst sg_plan.simps, simp)
  apply (subst sg_plan.simps, simp)
  apply (subst csg_plan.simps, simp)
  apply (subst sg_plan.simps, simp)
  apply (subst sg_plan.simps, simp)
  apply (subst csg_plan.simps, simp)
  apply (simp add: sg_entry_def sg_paddr_def ldl_le_phys_def apu_reset_state_def)
  done

lemma overrun_write:
  "circular_scatter_gather_rw 0x1000 0x2000 0 True 0x100 0x104 apu_reset_state pattern 0 0x100 8
     = Some (Inr (overrun_state, pattern, 0x100))"
proof -
  have w: "(0x100 :: 32 word) \<le> 0x100" "(0x100 :: 32 word) < 0x104" by simp_all
  have 1: "scatter_gather_rw 0x1000 apu_reset_state 0x2000 0 pattern 0 0x100 4 True =
     Some (Inr (apu_reset_state\<lparr>mem := memcpy_to_ram (\<lambda>a. 0) 0x100 pattern 0 4\<rparr>, pattern))"
    by (subst sg_single_page)
       (simp_all add: sg_paddr_def sg_entry_def ldl_le_phys_def apu_reset_state_def)
  have 2: "scatter_gather_rw 0x1000
     (apu_reset_state\<lparr>mem := memcpy_to_ram (\<lambda>a. 0) 0x100 pattern 0 4\<rparr>)
     0x2000 0 pattern 4 0x100 4 True = Some (Inr (overrun_state, pattern))"
    by (subst sg_single_page)
       (simp_all add: sg_paddr_def sg_entry_def ldl_le_phys_def apu_reset_state_def
          memcpy_to_ram_def overrun_state_def)
  show ?thesis
    unfolding csg_chunks_run [OF w]
    by (simp add: csg_chunks_overrun 1 2 csg_new_cur_def)
qed

lemma overrun_read:
  "circular_scatter_gather_rw 0x1000 0x2000 0 False 0x100 0x104 overrun_state (\<lambda>k. 0) 0 0x100 8
     = Some (Inr (overrun_state,
         memcpy_from_ram (memcpy_from_ram (\<lambda>k. 0) 0 (mem overrun_state) 0x100 4) 4
           (mem overrun_state) 0x100 4, 0x100))"
proof -
  have w: "(0x100 :: 32 word) \<le> 0x100" "(0x100 :: 32 word) < 0x104" by simp_all
  have 1: "scatter_gather_rw 0x1000 overrun_state 0x2000 0 buf ptr 0x100 4 False =
     Some (Inr (overrun_state, memcpy_from_ram buf ptr (mem overrun_state) 0x100 4))" for buf ptr
    by (subst sg_single_page)
       (simp_all add: sg_paddr_def sg_entry_def ldl_le_phys_def apu_reset_state_def
          memcpy_to_ram_def overrun_state_def)
  show ?thesis
    unfolding csg_chunks_run [OF w]
    by (simp add: csg_chunks_overrun 1 csg_new_cur_def)
qed

lemma overrun_bytes:
  "map (memcpy_from_ram (memcpy_from_ram (\<lambda>k. 0) 0 (mem overrun_state) 0x100 4) 4
           (mem overrun_state) 0x100 4) [0..<8] = [5, 6, 7, 8, 5, 6, 7, 8]"
  by (simp add: upt_rec memcpy_from_ram_def memcpy_to_ram_def overrun_state_def pattern_def)

lemma alias_sg_write:
  "scatter_gather_rw 0x1000 apu_reset_state 0x2000 1 mark 0 0xFFF 0x1001 True
     = Some (Inr (alias_state, mark))"
proof -
  have l: "(0 :: 64 word) < 0x1001" "(0 :: 64 word) < 0x1000" by simp_all
  have c: "clamp_len 1 (0x1001 :: 64 word) = 1" "clamp_len 0x1000 (0x1000 :: 64 word) = 0x1000"
    by (simp_all add: clamp_len_def)
  show ?thesis
    apply (simp add: scatter_gather_rw_def Let_def)
    apply (subst sg_loop_step [OF l(1)])
    apply (simp add: c sg_paddr_def sg_entry_def ldl_le_phys_def apu_reset_state_def)
    apply (subst sg_loop_step [OF l(2)])
    apply (simp add: c sg_paddr_def sg_entry_def ldl_le_phys_def memcpy_to_ram_def
        sg_loop_done alias_state_def apu_reset_state_def)
    done
qed

lemma alias_sg_read:
  "scatter_gather_rw 0x1000 alias_state 0x2000 1 (\<lambda>k. 0) 0 0xFFF 0x1001 False
     = Some (Inr (alias_state,
         memcpy_from_ram (memcpy_from_ram (\<lambda>k. 0) 0 (mem alias_state) 0xFFF 1) 1
           (mem alias_state) 0 0x1000))"
proof -
  have l: "(0 :: 64 word) < 0x1001" "(0 :: 64 word) < 0x1000" by simp_all
  have c: "clamp_len 1 (0x1001 :: 64 word) = 1" "clamp_len 0x1000 (0x1000 :: 64 word) = 0x1000"
    by (simp_all add: clamp_len_def)
  have t: "ldl_le_phys (mem alias_state) 0x2000 = 0" "ldl_le_phys (mem alias_state) 0x2008 = 0"
    by (simp_all add: ldl_le_phys_def alias_state_def memcpy_to_ram_def mark_def)
  have r: "ram_size alias_state = 0x4000000"
    by (simp add: alias_state_def apu_reset_state_def)
  show ?thesis
    apply (simp add: scatter_gather_rw_def Let_def)
    apply (subst sg_loop_step [OF l(1)])
    apply (simp add: c sg_paddr_def sg_entry_def t r)
    apply (subst sg_loop_step [OF l(2)])
    apply (simp add: c sg_paddr_def sg_entry_def t r sg_loop_done)
    done
qed

lemma alias_write:
  "circular_scatter_gather_rw 0x1000 0x2000 1 True 0xFFF 0x2000 apu_reset_state mark 0 0xFFF
     0x1001 = Some (Inr (alias_state, mark, 0xFFF))"
proof -
  have w: "(0xFFF :: 32 word) \<le> 0xFFF" "(0xFFF :: 32 word) < 0x2000" "(0 :: 64 word) < 0x1001"
    by simp_all
  have c: "clamp_len (0x2000 - 0xFFF) (0x1001 :: 64 word) = 0x1001"
    by (simp add: clamp_len_def)
  show ?thesis
    unfolding csg_step [OF w] c by (simp add: alias_sg_write csg_done)
qed

lemma alias_read:
  "circular_scatter_gather_rw 0x1000 0x2000 1 False 0xFFF 0x2000 alias_state (\<lambda>k. 0) 0 0xFFF
     0x1001 = Some (Inr (alias_state,
         memcpy_from_ram (memcpy_from_ram (\<lambda>k. 0) 0 (mem alias_state) 0xFFF 1) 1
           (mem alias_state) 0 0x1000, 0xFFF))"
proof -
  have w: "(0xFFF :: 32 word) \<le> 0xFFF" "(0xFFF :: 32 word) < 0x2000" "(0 :: 64 word) < 0x1001"
    by simp_all
  have c: "clamp_len (0x2000 - 0xFFF) (0x1001 :: 64 word) = 0x1001"
    by (simp add: clamp_len_def)
  show ?thesis
    unfolding csg_step [OF w] c by (simp add: alias_sg_read csg_done)
qed

lemma alias_byte:
  "memcpy_from_ram (memcpy_from_ram (\<lambda>k. 0) 0 (mem alias_state) 0xFFF 1) 1
           (mem alias_state) 0 0x1000 0 = 0"
  by (simp add: memcpy_from_ram_def memcpy_to_ram_def alias_state_def mark_def)

lemma clobber_write:
  "circular_scatter_gather_rw 0x1000 0x100 0 True 0x100 0x104 apu_reset_state pattern 0 0x100 4
     = Some (Inr (clobber_state, pattern, 0x100))"
proof -
  have w: "(0x100 :: 32 word) \<le> 0x100" "(0x100 :: 32 word) < 0x104" "(0 :: 64 word) < 4"
    by simp_all
  have c: "clamp_len (0x104 - 0x100) (4 :: 64 word) = 4" by (simp add: clamp_len_def)
  have 1: "scatter_gather_rw 0x1000 apu_reset_state 0x100 0 pattern 0 0x100 4 True =
     Some (Inr (clobber_state, pattern))"
    by (subst sg_single_page)
       (simp_all add: sg_paddr_def sg_entry_def ldl_le_phys_def apu_reset_state_def
          clobber_state_def)
  show ?thesis
    unfolding csg_step [OF w] c by (simp add: 1 csg_done)
qed

lemma clobber_entry: "ldl_le_phys (mem clobber_state) 0x100 = 0x04030201"
  by (simp add: ldl_le_phys_def clobber_state_def memcpy_to_ram_def pattern_def)

lemma clobber_read:
  "circular_scatter_gather_rw 0x1000 0x100 0 False 0x100 0x104 clobber_state (\<lambda>k. 0) 0 0x100 4
     = Some (Inl Assert_ram_size)"
proof -
  have w: "(0x100 :: 32 word) \<le> 0x100" "(0x100 :: 32 word) < 0x104" "(0 :: 64 word) < 4"
    by simp_all
  have c: "clamp_len (0x104 - 0x100) (4 :: 64 word) = 4" "clamp_len 0xF00 (4 :: 64 word) = 4"
    by (simp_all add: clamp_len_def)
  have r: "ram_size clobber_state = 0x4000000"
    by (simp add: clobber_state_def apu_reset_state_def)
  have 1: "scatter_gather_rw 0x1000 clobber_state 0x100 0 (\<lambda>k. 0) 0 0x100 4 False =
     Some (Inl Assert_ram_size)"
    apply (simp add: scatter_gather_rw_def Let_def)
    apply (subst sg_loop_step [OF w(3)])
    apply (simp add: c sg_paddr_def sg_entry_def clobber_entry r)
    done
  show ?thesis
    unfolding csg_step [OF w] c by (simp add: 1)
qed

text \<open>
  C8 (amended). For a window \<open>base \<le> cur < end\<close>: when a circular write of \<open>len\<close> bytes at
  \<open>cur\<close> returns normally and the pieces of the transfer are separated (their physical
  ranges are pairwise disjoint and contain no table entry the transfer uses), then the
  circular read of \<open>len\<close> bytes at the same \<open>cur\<close>, into any buffer, returns normally, leaves
  the state as the write left it, returns the same new \<open>cur\<close> as the write, and delivers
  exactly the bytes written.
\<close>

theorem C8_circular_round_trip:
  fixes base cur fend :: "32 word"
  assumes "base \<le> cur" "cur < fend"
    and "circular_scatter_gather_rw ps sge mx True base fend d buf ptr cur len
         = Some (Inr (d1, buf1, nc))"
    and "plan_sep (csg_plan ps (mem d) sge ptr base fend cur (unat len))"
  shows "\<exists>buf2. circular_scatter_gather_rw ps sge mx False base fend d1 rbuf ptr cur len
                  = Some (Inr (d1, buf2, nc))
           \<and> map buf2 [ptr..<ptr + unat len] = map buf [ptr..<ptr + unat len]"
proof (cases "0 < len")
  case False
  then have z: "len = 0" by (simp add: word_greater_zero_iff)
  from assms(3) have "d1 = d" "nc = cur" by (simp_all add: z csg_done)
  then show ?thesis by (simp add: z csg_done)
next
  case True
  define pl where "pl = csg_plan ps (mem d) sge ptr base fend cur (unat len)"
  define W where "W = write_plan buf pl (mem d)"
  have ps: "ps \<noteq> 0"
  proof
    assume "ps = 0"
    then have "scatter_gather_rw ps d sge mx buf ptr cur
                 (ucast (clamp_len (fend - cur) len)) True = Some (Inl Division_by_zero)"
      by (simp add: scatter_gather_rw_def)
    with assms(3) show False unfolding csg_step [OF assms(1,2) True] by simp
  qed
  from csg_write_plan [OF assms(1,2) assms(4) assms(3)]
  have d1: "d1 = d\<lparr>mem := W\<rparr>" and ok: "list_all (piece_ok mx (ram_size d)) pl"
    by (simp_all add: pl_def W_def)
  have wf: "list_all piece_wf pl" unfolding pl_def by (rule csg_plan_wf)
  have sep: "plan_sep pl" using assms(4) by (simp add: pl_def)
  have pl1: "csg_plan ps (mem d1) sge ptr base fend cur (unat len) = pl"
    unfolding pl_def
  proof (rule csg_plan_cong)
    fix pg ea pa p k
    assume y: "(pg, ea, pa, p, k) \<in> set (csg_plan ps (mem d) sge ptr base fend cur (unat len))"
    have "ldl_le_phys (write_plan buf pl (mem d)) ea = ldl_le_phys (mem d) ea"
    proof (rule ldl_write_plan_clear)
      fix x assume x: "x \<in> set pl"
      from plan_sep_clear [OF sep y [folded pl_def] x] wf x
      show "piece_wf x \<and> tab_clear (pg, ea, pa, p, k) x" by (simp add: list_all_iff)
    qed
    then show "ldl_le_phys (mem d1) ea = ldl_le_phys (mem d) ea" by (simp add: d1 W_def)
  qed
  have ok1: "list_all (piece_ok mx (ram_size d1))
               (csg_plan ps (mem d1) sge ptr base fend cur (unat len))"
    unfolding pl1 using ok by (simp add: d1)
  from csg_read_plan [OF ps assms(1,2) ok1, of rbuf]
  obtain nc' where rd: "circular_scatter_gather_rw ps sge mx False base fend d1 rbuf ptr cur len
      = Some (Inr (d1, read_plan (mem d1) pl rbuf, nc'))"
    unfolding pl1 by blast
  have "nc' = nc"
    using csg_result_cur [OF assms(1,2) rd] csg_result_cur [OF assms(1,2) assms(3)] by simp
  moreover have "map (read_plan (mem d1) pl rbuf) [ptr..<ptr + unat len]
                 = map buf [ptr..<ptr + unat len]"
  proof (rule map_cong [OF refl])
    fix k assume "k \<in> set [ptr..<ptr + unat len]"
    then have k: "ptr \<le> k" "k < ptr + plan_len pl"
      by (simp_all add: pl_def csg_plan_len [OF ps assms(1,2)])
    have cs: "consec ptr pl" unfolding pl_def by (rule csg_plan_consec [OF ps])
    from plan_round_trip [OF wf sep cs k, of buf "mem d" rbuf]
    show "read_plan (mem d1) pl rbuf k = buf k" by (simp add: d1 W_def)
  qed
  ultimately show ?thesis using rd by simp
qed

text \<open>
  C8 on a concrete ring: window \<open>[0x100, 0x108)\<close>, \<open>cur = 0x104\<close>, six pattern bytes, 4 KiB
  pages, table at \<open>0x2000\<close> with page 0 mapped to physical address 0. The write wraps after
  four bytes, the pieces are separated, and the read returns the bytes 1 to 6 and the same
  new \<open>cur = 0x102\<close>.
\<close>

theorem C8_circular_round_trip_witness:
  "(0x100 :: 32 word) \<le> 0x104 \<and> (0x104 :: 32 word) < 0x108
   \<and> circular_scatter_gather_rw 0x1000 0x2000 0 True 0x100 0x108 apu_reset_state pattern 0
       0x104 6 = Some (Inr (ring_state, pattern, 0x102))
   \<and> plan_sep (csg_plan 0x1000 (mem apu_reset_state) 0x2000 0 0x100 0x108 0x104
                 (unat (6 :: 64 word)))
   \<and> (\<exists>buf2. circular_scatter_gather_rw 0x1000 0x2000 0 False 0x100 0x108 ring_state
                (\<lambda>k. 0) 0 0x104 6 = Some (Inr (ring_state, buf2, 0x102))
         \<and> map buf2 [0..<6] = [1, 2, 3, 4, 5, 6])"
proof -
  have w: "(0x100 :: 32 word) \<le> 0x104" "(0x104 :: 32 word) < 0x108" by simp_all
  have sp: "plan_sep (csg_plan 0x1000 (mem apu_reset_state) 0x2000 0 0x100 0x108 0x104
                 (unat (6 :: 64 word)))"
    unfolding ring_plan by simp
  have p: "map pattern [0..<6] = [1, 2, 3, 4, 5, 6]" by (simp add: upt_rec pattern_def)
  have u: "0 + unat (6 :: 64 word) = 6" by simp
  from C8_circular_round_trip [OF w ring_write sp, of "\<lambda>k. 0"]
  have "\<exists>buf2. circular_scatter_gather_rw 0x1000 0x2000 0 False 0x100 0x108 ring_state
                (\<lambda>k. 0) 0 0x104 6 = Some (Inr (ring_state, buf2, 0x102))
         \<and> map buf2 [0..<6] = [1, 2, 3, 4, 5, 6]"
    unfolding u p .
  with w ring_write sp show ?thesis by (simp only: simp_thms)
qed

text \<open>
  C8 as first stated fails in three ways, each with \<open>base \<le> cur < end\<close>.
  A transfer longer than the window overwrites its own first bytes: eight pattern bytes into
  the window \<open>[0x100, 0x104)\<close> read back as 5, 6, 7, 8, 5, 6, 7, 8, though both directions
  return the new \<open>cur = 0x100\<close>.
  A table that maps two pages of the window to the same physical page does the same within
  the window length: 0x1001 bytes at \<open>0xFFF\<close> in the window \<open>[0xFFF, 0x2000)\<close>, first byte 1,
  read back with first byte 0.
  A table that lies in the memory the transfer writes is overwritten by it: with the table at
  physical address \<open>0x100\<close>, four pattern bytes written at \<open>0x100\<close> turn entry 0 into
  \<open>0x04030201\<close>, and the read stops at the bound check on the physical address.
\<close>

theorem C8_round_trip_counterexample:
  "(0x100 :: 32 word) \<le> 0x100 \<and> (0x100 :: 32 word) < 0x104
   \<and> circular_scatter_gather_rw 0x1000 0x2000 0 True 0x100 0x104 apu_reset_state pattern 0
       0x100 8 = Some (Inr (overrun_state, pattern, 0x100))
   \<and> (case circular_scatter_gather_rw 0x1000 0x2000 0 False 0x100 0x104 overrun_state
               (\<lambda>k. 0) 0 0x100 8 of
         None \<Rightarrow> False
       | Some r \<Rightarrow>
           (case r of
              Inl e \<Rightarrow> False
            | Inr (d', buf', new_cur) \<Rightarrow>
                d' = overrun_state \<and> new_cur = 0x100
                \<and> map buf' [0..<8] = [5, 6, 7, 8, 5, 6, 7, 8]))
   \<and> map pattern [0..<8] = [1, 2, 3, 4, 5, 6, 7, 8]
   \<and> (0xFFF :: 32 word) \<le> 0xFFF \<and> (0xFFF :: 32 word) < 0x2000
   \<and> circular_scatter_gather_rw 0x1000 0x2000 1 True 0xFFF 0x2000 apu_reset_state mark 0
       0xFFF 0x1001 = Some (Inr (alias_state, mark, 0xFFF))
   \<and> (case circular_scatter_gather_rw 0x1000 0x2000 1 False 0xFFF 0x2000 alias_state
               (\<lambda>k. 0) 0 0xFFF 0x1001 of
         None \<Rightarrow> False
       | Some r \<Rightarrow>
           (case r of
              Inl e \<Rightarrow> False
            | Inr (d', buf', new_cur) \<Rightarrow> buf' 0 = 0))
   \<and> mark 0 = 1
   \<and> circular_scatter_gather_rw 0x1000 0x100 0 True 0x100 0x104 apu_reset_state pattern 0
       0x100 4 = Some (Inr (clobber_state, pattern, 0x100))
   \<and> circular_scatter_gather_rw 0x1000 0x100 0 False 0x100 0x104 clobber_state (\<lambda>k. 0) 0
       0x100 4 = Some (Inl Assert_ram_size)"
proof -
  have p: "map pattern [0..<8] = [1, 2, 3, 4, 5, 6, 7, 8]" by (simp add: upt_rec pattern_def)
  have m: "mark 0 = 1" by (simp add: mark_def)
  show ?thesis
    unfolding overrun_write overrun_read alias_write alias_read clobber_write clobber_read
    by (simp only: option.case sum.case prod.case overrun_bytes alias_byte p m simp_thms)
       simp
qed

end
